theory Spec2Isabelle
  imports Complex_Main "HOL-Library.Word"
begin

unbundle bit_operations_syntax

section \<open>JavaScript values used by the audio pipeline\<close>

text \<open>
  A JavaScript string is a sequence of UTF-16 code units. The text the user types is
  Japanese, so the model keeps code units (16-bit words) and not 8-bit characters.
  Messages of errors are ASCII literals and stay Isabelle strings.
\<close>

type_synonym code_unit = "16 word"
type_synonym js_string = "code_unit list"
type_synonym byte = "8 word"
type_synonym int16 = "16 word"

datatype js_error =
    Error string
  | RangeError
  | NotSupportedError
  | InvalidCharacterError
  | InvalidStateError

text \<open>
  \<open>String.prototype.trim\<close> removes leading and trailing WhiteSpace and LineTerminator
  code points (ECMAScript): TAB, LF, VT, FF, CR, SPACE, NBSP, U+1680, U+2000..U+200A,
  U+2028, U+2029, U+202F, U+205F, U+3000 (the ideographic space) and U+FEFF.
\<close>

definition js_whitespace :: "code_unit \<Rightarrow> bool" where
  "js_whitespace c \<longleftrightarrow>
     c = 0x0009 \<or> c = 0x000A \<or> c = 0x000B \<or> c = 0x000C \<or> c = 0x000D \<or> c = 0x0020 \<or>
     c = 0x00A0 \<or> c = 0x1680 \<or> (0x2000 \<le> c \<and> c \<le> 0x200A) \<or>
     c = 0x2028 \<or> c = 0x2029 \<or> c = 0x202F \<or> c = 0x205F \<or> c = 0x3000 \<or> c = 0xFEFF"

definition trim :: "js_string \<Rightarrow> js_string" where
  "trim s = rev (dropWhile js_whitespace (rev (dropWhile js_whitespace s)))"

section \<open>The speech service: \<open>generateJapaneseSpeech\<close>\<close>

text \<open>
  The remote call \<open>ai.models.generateContent\<close> is the environment: it either throws an
  error (whose \<open>message\<close> may be missing or empty) or answers, and the answer may or may
  not carry \<open>candidates[0].content.parts[0].inlineData.data\<close>.
\<close>

datatype api_result =
    ApiThrows "string option"
  | ApiAnswers "js_string option"

record 'v gen_outcome =
  gen_result :: "js_error + js_string"
  api_calls :: "(js_string \<times> 'v) list"
  console :: "string list"

definition or_default :: "string option \<Rightarrow> string \<Rightarrow> string" where
  "or_default m d = (case m of None \<Rightarrow> d | Some s \<Rightarrow> (if s = [] then d else s))"

definition generateJapaneseSpeech ::
  "(js_string \<Rightarrow> 'v \<Rightarrow> api_result) \<Rightarrow> js_string \<Rightarrow> 'v \<Rightarrow> 'v gen_outcome" where
  "generateJapaneseSpeech api text voice =
     (if trim text = [] then
        \<lparr>gen_result = Inl (Error ''Please enter some Japanese text.''),
         api_calls = [], console = []\<rparr>
      else
        (case api text voice of
           ApiThrows m \<Rightarrow>
             \<lparr>gen_result = Inl (Error (or_default m ''Failed to generate speech.'')),
              api_calls = [(text, voice)], console = [''Gemini TTS Error:'']\<rparr>
         | ApiAnswers base64Audio \<Rightarrow>
             (if base64Audio = None \<or> base64Audio = Some [] then
                \<lparr>gen_result = Inl (Error ''No audio data received from Gemini.''),
                 api_calls = [(text, voice)], console = [''Gemini TTS Error:'']\<rparr>
              else
                \<lparr>gen_result = Inr (the base64Audio),
                 api_calls = [(text, voice)], console = []\<rparr>)))"

section \<open>Numbers and typed arrays\<close>

text \<open>
  A JavaScript number is an IEEE double and a \<open>Float32Array\<close> element an IEEE single.
  The finite values are kept as reals. No rounding is lost by that: the decoder divides
  a 16-bit integer by \<open>2 ^ 15\<close>, which a single holds exactly, and the encoder multiplies
  a single (24 significant bits) by a 15- or 16-bit constant, which a double holds
  exactly. \<open>NaN\<close> and the infinities are values of their own; \<open>undefined\<close>, read from a
  typed array out of range, becomes \<open>NaN\<close> in arithmetic.
\<close>

datatype js_num = Num real | NaN | PosInf | NegInf

fun js_lt :: "js_num \<Rightarrow> js_num \<Rightarrow> bool" where
  "js_lt NaN _ = False"
| "js_lt _ NaN = False"
| "js_lt (Num a) (Num b) = (a < b)"
| "js_lt (Num a) PosInf = True"
| "js_lt (Num a) NegInf = False"
| "js_lt PosInf _ = False"
| "js_lt NegInf NegInf = False"
| "js_lt NegInf _ = True"

definition Math_min :: "js_num \<Rightarrow> js_num \<Rightarrow> js_num" where
  "Math_min a b = (if a = NaN \<or> b = NaN then NaN else if js_lt b a then b else a)"

definition Math_max :: "js_num \<Rightarrow> js_num \<Rightarrow> js_num" where
  "Math_max a b = (if a = NaN \<or> b = NaN then NaN else if js_lt a b then b else a)"

fun js_times :: "js_num \<Rightarrow> real \<Rightarrow> js_num" where
  "js_times (Num a) k = Num (a * k)"
| "js_times NaN k = NaN"
| "js_times PosInf k = (if k = 0 then NaN else if 0 < k then PosInf else NegInf)"
| "js_times NegInf k = (if k = 0 then NaN else if 0 < k then NegInf else PosInf)"

text \<open>Truncation towards zero, the first step of every conversion to an integer type.\<close>

definition js_trunc :: "real \<Rightarrow> int" where
  "js_trunc r = (if r < 0 then \<lceil>r\<rceil> else \<lfloor>r\<rfloor>)"

text \<open>\<open>ToInt16\<close>, applied when a number is stored into an \<open>Int16Array\<close>.\<close>

fun to_int16 :: "js_num \<Rightarrow> int16" where
  "to_int16 (Num r) = word_of_int (js_trunc r)"
| "to_int16 _ = 0"

text \<open>The Web IDL conversion to \<open>unsigned long\<close>, applied to the arguments of platform calls.\<close>

fun to_unsigned_long :: "js_num \<Rightarrow> nat" where
  "to_unsigned_long (Num r) = nat (js_trunc r mod 2 ^ 32)"
| "to_unsigned_long _ = 0"

text \<open>
  Typed arrays have a fixed length: a read out of range gives \<open>undefined\<close>, a write out
  of range is ignored.
\<close>

definition typed_get :: "'a list \<Rightarrow> nat \<Rightarrow> 'a option" where
  "typed_get xs i = (if i < length xs then Some (xs ! i) else None)"

definition typed_set :: "'a list \<Rightarrow> nat \<Rightarrow> 'a \<Rightarrow> 'a list" where
  "typed_set xs i v = (if i < length xs then xs[i := v] else xs)"

text \<open>
  \<open>new Int16Array(buffer)\<close> views a whole \<open>ArrayBuffer\<close> as 16-bit elements in the byte
  order of the platform (little-endian on every platform the application runs on), and
  throws a \<open>RangeError\<close> when the byte length is not a multiple of 2. A \<open>Blob\<close> built
  from an \<open>Int16Array\<close> holds the same bytes.
\<close>

fun int16_elements :: "byte list \<Rightarrow> int16 list" where
  "int16_elements (lo # hi # rest) = word_of_nat (unat lo + 256 * unat hi) # int16_elements rest"
| "int16_elements _ = []"

definition new_Int16Array :: "byte list \<Rightarrow> js_error + int16 list" where
  "new_Int16Array buffer =
     (if length buffer mod 2 \<noteq> 0 then Inl RangeError else Inr (int16_elements buffer))"

fun int16_bytes :: "int16 list \<Rightarrow> byte list" where
  "int16_bytes [] = []"
| "int16_bytes (w # ws) =
     word_of_nat (unat w mod 256) # word_of_nat (unat w div 256) # int16_bytes ws"

section \<open>Audio buffers and the audio context\<close>

text \<open>
  An \<open>AudioBuffer\<close> of the Web Audio API: its sample rate, its length in sample frames
  and one \<open>Float32Array\<close> for each channel. \<open>numberOfChannels\<close> is the number of those
  arrays. Sample rates are whole numbers of Hz (the application uses 24000).
\<close>

record audio_buffer =
  sampleRate :: nat
  length_frames :: nat
  channelData :: "js_num list list"

definition numberOfChannels :: "audio_buffer \<Rightarrow> nat" where
  "numberOfChannels b = length (channelData b)"

text \<open>
  The buffers the platform hands out: at least one channel, at least one frame, and
  every channel as long as the buffer.
\<close>

definition well_formed :: "audio_buffer \<Rightarrow> bool" where
  "well_formed b \<longleftrightarrow>
     0 < numberOfChannels b \<and> 0 < length_frames b \<and>
     list_all (\<lambda>c. length c = length_frames b) (channelData b)"

datatype context_state = Suspended | Running | Closed

text \<open>
  An \<open>AudioContext\<close>: its state and the limits of the implementation (the Web Audio
  API asks for at least 32 channels and the rates 8000 to 96000).
\<close>

record audio_context =
  state :: context_state
  maxChannels :: nat
  minSampleRate :: nat
  maxSampleRate :: nat

text \<open>
  \<open>BaseAudioContext.createBuffer\<close>: the length is converted to \<open>unsigned long\<close>; a
  \<open>NotSupportedError\<close> is thrown when an argument is zero or outside its nominal range;
  the new buffer is silent.
\<close>

definition createBuffer :: "audio_context \<Rightarrow> nat \<Rightarrow> js_num \<Rightarrow> nat \<Rightarrow> js_error + audio_buffer" where
  "createBuffer ctx numOfChannels len rate =
     (let n = to_unsigned_long len in
      if numOfChannels = 0 \<or> maxChannels ctx < numOfChannels \<or> n = 0 \<or>
         rate < minSampleRate ctx \<or> maxSampleRate ctx < rate
      then Inl NotSupportedError
      else Inr \<lparr>sampleRate = rate, length_frames = n,
                channelData = replicate numOfChannels (replicate n (Num 0))\<rparr>)"

section \<open>The PCM decoder: \<open>decodeAudioData\<close>\<close>

text \<open>
  The \<open>Uint8Array\<close> passed in spans its whole \<open>ArrayBuffer\<close>, as the arrays made by
  \<open>decodeBase64\<close> do, so \<open>data.buffer\<close> holds the bytes of \<open>data\<close>. The promise the
  function returns is its result: rejected on \<open>Inl\<close>, fulfilled on \<open>Inr\<close>.
\<close>

text \<open>\<open>dataInt16.length / numChannels\<close>, a division of numbers.\<close>

definition frame_count :: "nat \<Rightarrow> nat \<Rightarrow> js_num" where
  "frame_count len numChannels =
     (if numChannels = 0 then (if len = 0 then NaN else PosInf)
      else Num (real len / real numChannels))"

text \<open>
  The indices \<open>i\<close> of the loop \<open>for (i = 0; i < frameCount; i++)\<close>. A frame count that
  is not finite arises for \<open>numChannels = 0\<close> only, where the loop over the channels has
  no iteration and this loop is never entered.
\<close>

fun frame_indices :: "js_num \<Rightarrow> nat list" where
  "frame_indices (Num r) = [0..<nat \<lceil>r\<rceil>]"
| "frame_indices _ = []"

text \<open>\<open>dataInt16[k] / 32768.0\<close>\<close>

definition sample_of_int16 :: "int16 list \<Rightarrow> nat \<Rightarrow> js_num" where
  "sample_of_int16 dataInt16 k =
     (case typed_get dataInt16 k of
        None \<Rightarrow> NaN
      | Some w \<Rightarrow> Num (real_of_int (sint w) / 32768))"

definition decode_channel :: "int16 list \<Rightarrow> nat \<Rightarrow> js_num \<Rightarrow> nat \<Rightarrow> js_num list \<Rightarrow> js_num list" where
  "decode_channel dataInt16 numChannels frameCount channel chData =
     fold (\<lambda>i cd. typed_set cd i (sample_of_int16 dataInt16 (i * numChannels + channel)))
       (frame_indices frameCount) chData"

definition decodeAudioData ::
  "byte list \<Rightarrow> audio_context \<Rightarrow> nat \<Rightarrow> nat \<Rightarrow> js_error + audio_buffer" where
  "decodeAudioData data ctx rate numChannels =
     (case new_Int16Array data of
        Inl e \<Rightarrow> Inl e
      | Inr dataInt16 \<Rightarrow>
          (let frameCount = frame_count (length dataInt16) numChannels in
           case createBuffer ctx numChannels frameCount rate of
             Inl e \<Rightarrow> Inl e
           | Inr buffer \<Rightarrow>
               Inr (fold (\<lambda>channel b.
                      b\<lparr>channelData := (channelData b)
                          [channel := decode_channel dataInt16 numChannels frameCount channel
                                        (channelData b ! channel)]\<rparr>)
                    [0..<numChannels] buffer)))"

section \<open>The WAV encoder: \<open>audioBufferToWav\<close>\<close>

text \<open>\<open>channels[ch][i]\<close>: \<open>undefined\<close> outside the array, which \<open>Math.min\<close> turns into \<open>NaN\<close>.\<close>

definition channel_sample :: "audio_buffer \<Rightarrow> nat \<Rightarrow> nat \<Rightarrow> js_num" where
  "channel_sample b ch i =
     (case typed_get (channelData b) ch of
        None \<Rightarrow> NaN
      | Some c \<Rightarrow> (case typed_get c i of None \<Rightarrow> NaN | Some s \<Rightarrow> s))"

text \<open>The body of the inner loop: clip, scale, store into the \<open>Int16Array\<close>.\<close>

definition encode_sample :: "js_num \<Rightarrow> int16" where
  "encode_sample s =
     (let clipped = Math_max (Num (- 1)) (Math_min (Num 1) s);
          scaled = (if js_lt clipped (Num 0) then js_times clipped 0x8000
                    else js_times clipped 0x7FFF)
      in to_int16 scaled)"

definition interleave :: "audio_buffer \<Rightarrow> int16 list" where
  "interleave b =
     (let numChannels = numberOfChannels b in
      fold (\<lambda>i d.
              fold (\<lambda>ch d'. typed_set d' (i * numChannels + ch)
                              (encode_sample (channel_sample b ch i)))
                [0..<numChannels] d)
        [0..<length_frames b]
        (replicate (length_frames b * numChannels) 0))"

text \<open>
  The \<open>DataView\<close> setters on the 44-byte header. Values are reduced modulo the width of
  the field; every multi-byte write of the encoder passes \<open>littleEndian = true\<close>. All
  offsets are constants inside the header, so the \<open>RangeError\<close> of a write out of
  bounds cannot arise.
\<close>

definition setUint8 :: "byte list \<Rightarrow> nat \<Rightarrow> nat \<Rightarrow> byte list" where
  "setUint8 view offset v = view[offset := word_of_nat (v mod 256)]"

definition setUint16 :: "byte list \<Rightarrow> nat \<Rightarrow> nat \<Rightarrow> byte list" where
  "setUint16 view offset v =
     (let n = v mod 2 ^ 16 in
      view[offset := word_of_nat (n mod 256), offset + 1 := word_of_nat (n div 256)])"

definition setUint32 :: "byte list \<Rightarrow> nat \<Rightarrow> nat \<Rightarrow> byte list" where
  "setUint32 view offset v =
     (let n = v mod 2 ^ 32 in
      view[offset := word_of_nat (n mod 256),
           offset + 1 := word_of_nat (n div 256 mod 256),
           offset + 2 := word_of_nat (n div 65536 mod 256),
           offset + 3 := word_of_nat (n div 16777216)])"

definition writeString :: "byte list \<Rightarrow> nat \<Rightarrow> string \<Rightarrow> byte list" where
  "writeString view offset str =
     fold (\<lambda>i v. setUint8 v (offset + i) (of_char (str ! i))) [0..<length str] view"

definition wav_header :: "nat \<Rightarrow> nat \<Rightarrow> nat \<Rightarrow> byte list" where
  "wav_header numChannels rate dataByteLength =
     (let format = 1; bitDepth = 16;
          view = replicate 44 0;
          view = writeString view 0 ''RIFF'';
          view = setUint32 view 4 (36 + dataByteLength);
          view = writeString view 8 ''WAVE'';
          view = writeString view 12 ''fmt '';
          view = setUint32 view 16 16;
          view = setUint16 view 20 format;
          view = setUint16 view 22 numChannels;
          view = setUint32 view 24 rate;
          view = setUint32 view 28 (rate * numChannels * (bitDepth div 8));
          view = setUint16 view 32 (numChannels * (bitDepth div 8));
          view = setUint16 view 34 bitDepth;
          view = writeString view 36 ''data'';
          view = setUint32 view 40 dataByteLength
      in view)"

record blob =
  blob_bytes :: "byte list"
  blob_type :: string

definition audioBufferToWav :: "audio_buffer \<Rightarrow> blob" where
  "audioBufferToWav b =
     (let data = interleave b;
          header = wav_header (numberOfChannels b) (sampleRate b) (2 * length data)
      in \<lparr>blob_bytes = header @ int16_bytes data, blob_type = ''audio/wav''\<rparr>)"

section \<open>The Base64 decoder: \<open>decodeBase64\<close>\<close>

text \<open>
  \<open>atob\<close> is the "forgiving-base64 decode" of the HTML standard: ASCII whitespace is
  removed; when the length is then a multiple of 4, one or two trailing \<open>=\<close> are
  removed; a length that leaves the remainder 1, or a code point outside the alphabet
  \<open>A-Z a-z 0-9 + /\<close>, is a failure, thrown as \<open>InvalidCharacterError\<close>; otherwise every
  code point stands for 6 bits, and the bits left over at the end (4 after two code
  points, 2 after three) are discarded. The result is a string whose code units are the
  bytes.
\<close>

definition ascii_whitespace :: "code_unit \<Rightarrow> bool" where
  "ascii_whitespace c \<longleftrightarrow> c = 0x09 \<or> c = 0x0A \<or> c = 0x0C \<or> c = 0x0D \<or> c = 0x20"

definition b64_value :: "code_unit \<Rightarrow> nat option" where
  "b64_value c =
     (if 0x41 \<le> c \<and> c \<le> 0x5A then Some (unat c - 0x41)
      else if 0x61 \<le> c \<and> c \<le> 0x7A then Some (unat c - 0x61 + 26)
      else if 0x30 \<le> c \<and> c \<le> 0x39 then Some (unat c - 0x30 + 52)
      else if c = 0x2B then Some 62
      else if c = 0x2F then Some 63
      else None)"

definition strip_padding :: "js_string \<Rightarrow> js_string" where
  "strip_padding data =
     (if length data mod 4 = 0 then
        (if 2 \<le> length data \<and> last data = 0x3D \<and> last (butlast data) = 0x3D
           then butlast (butlast data)
         else if data \<noteq> [] \<and> last data = 0x3D then butlast data
         else data)
      else data)"

fun decode_sextets :: "nat list \<Rightarrow> byte list" where
  "decode_sextets (a # b # c # d # rest) =
     (let n = ((a * 64 + b) * 64 + c) * 64 + d in
      word_of_nat (n div 65536) # word_of_nat (n div 256 mod 256) # word_of_nat (n mod 256)
        # decode_sextets rest)"
| "decode_sextets [a, b, c] =
     (let n = ((a * 64 + b) * 64 + c) div 4 in
      [word_of_nat (n div 256), word_of_nat (n mod 256)])"
| "decode_sextets [a, b] = [word_of_nat ((a * 64 + b) div 16)]"
| "decode_sextets _ = []"

definition atob :: "js_string \<Rightarrow> js_error + js_string" where
  "atob input =
     (let data = strip_padding (filter (\<lambda>c. \<not> ascii_whitespace c) input) in
      if length data mod 4 = 1 then Inl InvalidCharacterError
      else if \<not> list_all (\<lambda>c. b64_value c \<noteq> None) data then Inl InvalidCharacterError
      else Inr (map ucast (decode_sextets (map (\<lambda>c. the (b64_value c)) data))))"

text \<open>
  \<open>decodeBase64\<close> copies the code units of the binary string into a new \<open>Uint8Array\<close>;
  the store keeps the low 8 bits.
\<close>

definition decodeBase64 :: "js_string \<Rightarrow> js_error + byte list" where
  "decodeBase64 base64 =
     (case atob base64 of
        Inl e \<Rightarrow> Inl e
      | Inr binaryString \<Rightarrow>
          (let len = length binaryString in
           Inr (fold (\<lambda>i bytes. typed_set bytes i (ucast (binaryString ! i)))
                  [0..<len] (replicate len 0))))"

section \<open>The application: playback state and handlers\<close>

text \<open>
  An \<open>AudioBufferSourceNode\<close> of the platform: the buffer it plays, whether \<open>start\<close> and
  \<open>stop\<close> were called, whether it has played to its end, and whether it is connected to
  the analyser. Every node made by \<open>playBuffer\<close> carries the \<open>onended\<close> handler.
\<close>

record source_node =
  node_buffer :: audio_buffer
  started :: bool
  stopped :: bool
  ended :: bool
  connected :: bool

text \<open>
  \<open>stop()\<close> throws an \<open>InvalidStateError\<close> on a node that was never started. Some
  implementations also throw on a node that has already finished; the flag says whether
  this platform does.
\<close>

definition source_stop :: "bool \<Rightarrow> source_node \<Rightarrow> js_error + source_node" where
  "source_stop throwsWhenFinished n =
     (if \<not> started n \<or> (throwsWhenFinished \<and> (stopped n \<or> ended n))
      then Inl InvalidStateError
      else Inr (n\<lparr>stopped := True\<rparr>))"

definition source_disconnect :: "source_node \<Rightarrow> source_node" where
  "source_disconnect n = n\<lparr>connected := False\<rparr>"

record analyser_node =
  fftSize :: nat

text \<open>
  The text of the error banner. \<open>Text t\<close> is a text the application wrote itself;
  \<open>EngineText e\<close> stands for what \<open>err.message || "An unexpected error occurred."\<close>
  yields for an exception \<open>e\<close> of the platform, whose message is a text of the engine
  that the application does not fix.
\<close>

datatype error_text =
    Text string
  | EngineText js_error

fun message_or_default :: "js_error \<Rightarrow> error_text" where
  "message_or_default (Error m) = Text (or_default (Some m) ''An unexpected error occurred.'')"
| "message_or_default RangeError = EngineText RangeError"
| "message_or_default NotSupportedError = EngineText NotSupportedError"
| "message_or_default InvalidCharacterError = EngineText InvalidCharacterError"
| "message_or_default InvalidStateError = EngineText InvalidStateError"

text \<open>
  The handlers \<open>handleReplay\<close> and \<open>handleGenerateAndPlay\<close> are \<open>async\<close> functions: a
  call runs up to its first \<open>await\<close> and returns; what follows the \<open>await\<close> runs later,
  and other handlers may run in between. A call suspended at an \<open>await\<close> is kept as a
  continuation, with the local values it holds: one constructor for each \<open>await\<close> of
  the two handlers.

  \<^item> \<open>Replay_playBuffer\<close>: \<open>handleReplay\<close> has called \<open>playBuffer\<close>, which waits at
    \<open>await ensureAudioContext()\<close> for the context or the error.
  \<^item> \<open>Replay_done\<close>: \<open>handleReplay\<close> waits at \<open>await playBuffer(...)\<close> for the promise
    that \<open>playBuffer\<close> has settled, rejected with an error or fulfilled.
  \<^item> \<open>Generate_ensured\<close>: \<open>handleGenerateAndPlay\<close> waits at \<open>await ensureAudioContext()\<close>;
    it holds the \<open>text\<close> and \<open>voice\<close> of the render that made the handler and the answer the
    service will give.
  \<^item> \<open>Generate_speech\<close>: it waits at \<open>await generateJapaneseSpeech(text, voice)\<close>, which
    itself waits for the service.
  \<^item> \<open>Generate_decoded\<close>: it waits at \<open>await decodeAudioData(...)\<close>.
  \<^item> \<open>Generate_playBuffer\<close>: it has called \<open>playBuffer\<close>, which waits at
    \<open>await ensureAudioContext()\<close>.
  \<^item> \<open>Generate_done\<close>: it waits at \<open>await playBuffer(audioBuffer)\<close>.
\<close>

datatype 'v continuation =
    Replay_playBuffer audio_buffer "js_error + audio_context"
  | Replay_done "js_error option"
  | Generate_ensured js_string 'v "js_string \<Rightarrow> 'v \<Rightarrow> api_result" "js_error + audio_context"
  | Generate_speech audio_context "'v gen_outcome"
  | Generate_decoded "js_error + audio_buffer"
  | Generate_playBuffer audio_buffer "js_error + audio_context"
  | Generate_done "js_error option"

text \<open>
  The state of the \<open>App\<close> component: its React state (\<open>text\<close>, \<open>voice\<close>, \<open>isLoading\<close>,
  \<open>isPlaying\<close>, \<open>error\<close>, \<open>hasAudio\<close>), its refs, and the part of the platform its
  handlers act on: the source nodes created so far (a ref holds the index of a node),
  what the \<open>AudioContext\<close> constructor yields, how \<open>stop\<close> behaves on a finished node,
  the files handed to the browser for download, the number of \<open>console.error\<close>
  calls, and the handler calls that are suspended at an \<open>await\<close>. The type of voices is
  a parameter.
\<close>

record 'v app_state =
  textValue :: js_string
  voice :: 'v
  isLoading :: bool
  isPlaying :: bool
  error :: "error_text option"
  hasAudio :: bool
  audioContextRef :: "audio_context option"
  sourceNodeRef :: "nat option"
  analyserRef :: "analyser_node option"
  lastAudioBufferRef :: "audio_buffer option"
  nodes :: "source_node list"
  newAudioContext :: "js_error + audio_context"
  stopThrowsWhenFinished :: bool
  downloads :: "(string \<times> blob) list"
  consoleErrors :: nat
  pending :: "'v continuation list"

definition initial_state ::
  "js_error + audio_context \<Rightarrow> bool \<Rightarrow> js_string \<Rightarrow> 'v \<Rightarrow> 'v app_state" where
  "initial_state newContext stopThrows defaultText defaultVoice =
     \<lparr>textValue = defaultText, voice = defaultVoice, isLoading = False, isPlaying = False,
      error = None, hasAudio = False, audioContextRef = None, sourceNodeRef = None,
      analyserRef = None, lastAudioBufferRef = None, nodes = [],
      newAudioContext = newContext, stopThrowsWhenFinished = stopThrows,
      downloads = [], consoleErrors = 0, pending = []\<rparr>"

text \<open>
  \<open>stopAudio\<close>: the \<open>try\<close>/\<open>catch\<close> around \<open>stop()\<close> keeps the node as it is when
  \<open>stop()\<close> throws; the node is then disconnected and the ref cleared.
\<close>

definition stopAudio :: "'v app_state \<Rightarrow> 'v app_state" where
  "stopAudio s =
     (case sourceNodeRef s of
        None \<Rightarrow> s\<lparr>isPlaying := False\<rparr>
      | Some k \<Rightarrow>
          (let node = nodes s ! k;
               node = (case source_stop (stopThrowsWhenFinished s) node of
                         Inl e \<Rightarrow> node
                       | Inr node' \<Rightarrow> node');
               node = source_disconnect node
           in s\<lparr>nodes := (nodes s)[k := node], sourceNodeRef := None, isPlaying := False\<rparr>))"

text \<open>
  \<open>ensureAudioContext\<close> in two parts. The part that runs at the call creates the context
  if there is none (the constructor may throw, which rejects the promise) and asks a
  suspended context to resume; the caller then waits at its \<open>await\<close>. The part that runs
  when the caller is resumed yields the context, which is running by then. The two
  \<open>await\<close>s, on \<open>resume()\<close> and on \<open>ensureAudioContext()\<close>, have no code between them and
  are one suspension here.
\<close>

definition ensureAudioContext_begin ::
  "'v app_state \<Rightarrow> (js_error + audio_context) \<times> 'v app_state" where
  "ensureAudioContext_begin s =
     (case audioContextRef s of
        None \<Rightarrow>
          (case newAudioContext s of
             Inl e \<Rightarrow> (Inl e, s)
           | Inr c \<Rightarrow> (Inr c, s\<lparr>audioContextRef := Some c\<rparr>))
      | Some c \<Rightarrow> (Inr c, s))"

definition ensureAudioContext_end :: "audio_context \<Rightarrow> 'v app_state \<Rightarrow> audio_context \<times> 'v app_state" where
  "ensureAudioContext_end c s =
     (let c' = (if state c = Suspended then c\<lparr>state := Running\<rparr> else c)
      in (c', s\<lparr>audioContextRef := Some c'\<rparr>))"

text \<open>
  \<open>playBuffer\<close> after its \<open>await ensureAudioContext()\<close>: the analyser is made once, a new
  source node is made for the buffer, connected, stored in \<open>sourceNodeRef\<close> and started.
  Nothing here stops or disconnects the node the ref held before.
\<close>

definition playBuffer_resume :: "audio_buffer \<Rightarrow> 'v app_state \<Rightarrow> 'v app_state" where
  "playBuffer_resume buffer s1 =
     (let analyser = (case analyserRef s1 of None \<Rightarrow> \<lparr>fftSize = 2048\<rparr> | Some a \<Rightarrow> a);
          source = \<lparr>node_buffer = buffer, started = False, stopped = False,
                    ended = False, connected = False\<rparr>;
          source = source\<lparr>connected := True\<rparr>;
          k = length (nodes s1);
          source = source\<lparr>started := True\<rparr>
      in s1\<lparr>analyserRef := Some analyser, nodes := nodes s1 @ [source],
             sourceNodeRef := Some k, isPlaying := True\<rparr>)"

text \<open>
  \<open>ensureAudioContext\<close> and \<open>playBuffer\<close> as one awaited call each, with nothing else
  running while they wait.
\<close>

definition ensureAudioContext :: "'v app_state \<Rightarrow> js_error + (audio_context \<times> 'v app_state)" where
  "ensureAudioContext s =
     (case ensureAudioContext_begin s of
        (Inl e, s1) \<Rightarrow> Inl e
      | (Inr c, s1) \<Rightarrow> Inr (ensureAudioContext_end c s1))"

definition playBuffer :: "'v app_state \<Rightarrow> audio_buffer \<Rightarrow> js_error + 'v app_state" where
  "playBuffer s buffer =
     (case ensureAudioContext s of
        Inl e \<Rightarrow> Inl e
      | Inr (ctx, s1) \<Rightarrow> Inr (playBuffer_resume buffer s1))"

text \<open>
  The \<open>ended\<close> event of source node \<open>k\<close>, dispatched by the platform after the node has
  played to its end or was stopped: the \<open>onended\<close> handler sets \<open>isPlaying\<close> to false.
\<close>

definition source_ended :: "nat \<Rightarrow> 'v app_state \<Rightarrow> 'v app_state" where
  "source_ended k s =
     (if k < length (nodes s) \<and> started (nodes s ! k) \<and> \<not> ended (nodes s ! k)
      then s\<lparr>nodes := (nodes s)[k := (nodes s ! k)\<lparr>ended := True\<rparr>], isPlaying := False\<rparr>
      else s)"

text \<open>A call that reaches an \<open>await\<close> is put behind the calls that already wait.\<close>

definition suspend :: "'v continuation \<Rightarrow> 'v app_state \<Rightarrow> 'v app_state" where
  "suspend k s = s\<lparr>pending := pending s @ [k]\<rparr>"

text \<open>
  \<open>handleReplay\<close> up to its first \<open>await\<close>: the guard, \<open>stopAudio()\<close>, and the call of
  \<open>playBuffer\<close>, which runs \<open>ensureAudioContext\<close> up to the \<open>await\<close> and suspends. The
  source node is created only when the call is resumed.
\<close>

definition handleReplay :: "'v app_state \<Rightarrow> 'v app_state" where
  "handleReplay s =
     (case lastAudioBufferRef s of
        None \<Rightarrow> s
      | Some buffer \<Rightarrow>
          (let s1 = stopAudio s;
               (r, s2) = ensureAudioContext_begin s1
           in suspend (Replay_playBuffer buffer r) s2))"

text \<open>
  \<open>handleDownload\<close>; the argument is \<open>new Date().toISOString()\<close>. The anchor element
  it clicks and removes again is reduced to the file handed to the browser. Nothing in
  the \<open>try\<close> block throws in this model, so the \<open>catch\<close> branch has no counterpart.
\<close>

definition handleDownload :: "string \<Rightarrow> 'v app_state \<Rightarrow> 'v app_state" where
  "handleDownload isoString s =
     (case lastAudioBufferRef s of
        None \<Rightarrow> s
      | Some buffer \<Rightarrow>
          (let wavBlob = audioBufferToWav buffer;
               timestamp = take 19 (map (\<lambda>c. if c = CHR '':'' \<or> c = CHR ''.'' then CHR ''-'' else c)
                                      isoString)
           in s\<lparr>downloads := downloads s @ [(''nihongo-voice-'' @ timestamp @ ''.wav'', wavBlob)]\<rparr>))"

text \<open>
  The \<open>catch\<close> and \<open>finally\<close> blocks of \<open>handleGenerateAndPlay\<close>.
\<close>

definition generate_failed :: "js_error \<Rightarrow> 'v app_state \<Rightarrow> 'v app_state" where
  "generate_failed e s =
     s\<lparr>consoleErrors := consoleErrors s + 1,
       error := Some (message_or_default e),
       hasAudio := False, isLoading := False\<rparr>"

text \<open>
  \<open>handleGenerateAndPlay\<close> up to its first \<open>await\<close>: the three state updates,
  \<open>stopAudio()\<close>, and \<open>ensureAudioContext\<close> up to the \<open>await\<close>. The argument \<open>api\<close> is the
  answer the service will give to the request this call makes.
\<close>

definition handleGenerateAndPlay ::
  "(js_string \<Rightarrow> 'v \<Rightarrow> api_result) \<Rightarrow> 'v app_state \<Rightarrow> 'v app_state" where
  "handleGenerateAndPlay api s =
     (let s0 = stopAudio (s\<lparr>error := None, isLoading := True, hasAudio := False\<rparr>);
          (r, s1) = ensureAudioContext_begin s0
      in suspend (Generate_ensured (textValue s) (voice s) api r) s1)"

text \<open>
  A suspended call is resumed: it runs from its \<open>await\<close> to the next one, where it is
  suspended again, or to its end. An exception thrown on the way (by \<open>decodeBase64\<close>,
  or a rejected promise at an \<open>await\<close>) runs the \<open>catch\<close> block of the handler. The
  \<open>console.error\<close> that \<open>generateJapaneseSpeech\<close> makes before it rethrows is counted
  when the call returns from the service.
\<close>

fun resume :: "'v continuation \<Rightarrow> 'v app_state \<Rightarrow> 'v app_state" where
  "resume (Replay_playBuffer buffer (Inl e)) s = suspend (Replay_done (Some e)) s"
| "resume (Replay_playBuffer buffer (Inr c)) s =
     (let (ctx, s1) = ensureAudioContext_end c s
      in suspend (Replay_done None) (playBuffer_resume buffer s1))"
| "resume (Replay_done None) s = s"
| "resume (Replay_done (Some e)) s =
     s\<lparr>consoleErrors := consoleErrors s + 1, error := Some (Text ''Failed to replay audio.'')\<rparr>"
| "resume (Generate_ensured txt v api (Inl e)) s = generate_failed e s"
| "resume (Generate_ensured txt v api (Inr c)) s =
     (let (ctx, s1) = ensureAudioContext_end c s
      in suspend (Generate_speech ctx (generateJapaneseSpeech api txt v)) s1)"
| "resume (Generate_speech ctx outcome) s =
     (let s1 = s\<lparr>consoleErrors := consoleErrors s + length (console outcome)\<rparr> in
      case gen_result outcome of
        Inl e \<Rightarrow> generate_failed e s1
      | Inr base64Data \<Rightarrow>
          (case decodeBase64 base64Data of
             Inl e \<Rightarrow> generate_failed e s1
           | Inr rawBytes \<Rightarrow> suspend (Generate_decoded (decodeAudioData rawBytes ctx 24000 1)) s1))"
| "resume (Generate_decoded (Inl e)) s = generate_failed e s"
| "resume (Generate_decoded (Inr audioBuffer)) s =
     (let s1 = s\<lparr>lastAudioBufferRef := Some audioBuffer, hasAudio := True\<rparr>;
          (r, s2) = ensureAudioContext_begin s1
      in suspend (Generate_playBuffer audioBuffer r) s2)"
| "resume (Generate_playBuffer buffer (Inl e)) s = suspend (Generate_done (Some e)) s"
| "resume (Generate_playBuffer buffer (Inr c)) s =
     (let (ctx, s1) = ensureAudioContext_end c s
      in suspend (Generate_done None) (playBuffer_resume buffer s1))"
| "resume (Generate_done None) s = s\<lparr>isLoading := False\<rparr>"
| "resume (Generate_done (Some e)) s = generate_failed e s"

text \<open>A change of the text or of the voice, with the effect that resets the cache.\<close>

definition onTextChange :: "js_string \<Rightarrow> 'v app_state \<Rightarrow> 'v app_state" where
  "onTextChange t s = s\<lparr>textValue := t, hasAudio := False, lastAudioBufferRef := None\<rparr>"

definition onVoiceChange :: "'v \<Rightarrow> 'v app_state \<Rightarrow> 'v app_state" where
  "onVoiceChange v s = s\<lparr>voice := v, hasAudio := False, lastAudioBufferRef := None\<rparr>"

text \<open>
  The events of the component: the clicks and edits that call its handlers, the \<open>ended\<close>
  events of the platform, and \<open>Resume i\<close>, which resumes the \<open>i\<close>-th of the suspended
  calls. JavaScript runs one piece of code at a time, from one \<open>await\<close> to the next, so a
  run of the application is a sequence of such events, and two calls of a handler may
  interleave at their \<open>await\<close>s. Promises that are already settled resume their calls in
  the order of suspension (\<open>Resume 0\<close>); a call that waits for the service or for
  \<open>resume()\<close> may be overtaken.
\<close>

datatype 'v event =
    GenerateAndPlay "js_string \<Rightarrow> 'v \<Rightarrow> api_result"
  | Replay
  | Download string
  | Stop
  | Ended nat
  | TextChange js_string
  | VoiceChange 'v
  | Resume nat

fun step :: "'v event \<Rightarrow> 'v app_state \<Rightarrow> 'v app_state" where
  "step (GenerateAndPlay api) s = handleGenerateAndPlay api s"
| "step Replay s = handleReplay s"
| "step (Download isoString) s = handleDownload isoString s"
| "step Stop s = stopAudio s"
| "step (Ended k) s = source_ended k s"
| "step (TextChange t) s = onTextChange t s"
| "step (VoiceChange v) s = onVoiceChange v s"
| "step (Resume i) s =
     (if i < length (pending s)
      then resume (pending s ! i) (s\<lparr>pending := take i (pending s) @ drop (Suc i) (pending s)\<rparr>)
      else s)"

definition run :: "'v event list \<Rightarrow> 'v app_state \<Rightarrow> 'v app_state" where
  "run events s = fold step events s"

text \<open>
  The runs in which the calls of the two \<open>async\<close> handlers do not overlap: a handler is
  called only when no earlier call is still suspended. Every other event may come at
  any time.
\<close>

fun is_call :: "'v event \<Rightarrow> bool" where
  "is_call (GenerateAndPlay api) = True"
| "is_call Replay = True"
| "is_call (Download isoString) = False"
| "is_call Stop = False"
| "is_call (Ended k) = False"
| "is_call (TextChange t) = False"
| "is_call (VoiceChange v) = False"
| "is_call (Resume i) = False"

fun no_overlap :: "'v event list \<Rightarrow> 'v app_state \<Rightarrow> bool" where
  "no_overlap [] s = True"
| "no_overlap (ev # evs) s = ((is_call ev \<longrightarrow> pending s = []) \<and> no_overlap evs (step ev s))"

text \<open>
  A playback session is active while its source node is started and has neither been
  stopped nor played to its end. \<open>active_nodes\<close> lists the indices of those nodes.
\<close>

definition active :: "source_node \<Rightarrow> bool" where
  "active n \<longleftrightarrow> started n \<and> \<not> stopped n \<and> \<not> ended n"

definition active_nodes :: "'v app_state \<Rightarrow> nat list" where
  "active_nodes s = filter (\<lambda>k. active (nodes s ! k)) [0..<length (nodes s)]"

definition context_available :: "'v app_state \<Rightarrow> bool" where
  "context_available s \<longleftrightarrow>
     (case audioContextRef s of
        Some c \<Rightarrow> True
      | None \<Rightarrow> (case newAudioContext s of Inl e \<Rightarrow> False | Inr c \<Rightarrow> True))"

text \<open>
  The invariant of the playback controller: a source node that is still active is the
  one \<open>sourceNodeRef\<close> holds, and the ref holds the index of a node that exists.
\<close>

definition session_inv :: "'v app_state \<Rightarrow> bool" where
  "session_inv s \<longleftrightarrow>
     list_all (\<lambda>j. active (nodes s ! j) \<longrightarrow> sourceNodeRef s = Some j) [0..<length (nodes s)] \<and>
     (case sourceNodeRef s of None \<Rightarrow> True | Some k \<Rightarrow> k < length (nodes s))"

text \<open>
  A suspended call that has not yet created its source node, and the invariant of the
  runs without overlap: at most one call is suspended, and while it has not created
  its node no node is active and the ref is empty, as its \<open>stopAudio()\<close> left them.
\<close>

fun before_play :: "'v continuation \<Rightarrow> bool" where
  "before_play (Replay_playBuffer buffer r) = True"
| "before_play (Replay_done r) = False"
| "before_play (Generate_ensured txt v api r) = True"
| "before_play (Generate_speech ctx outcome) = True"
| "before_play (Generate_decoded r) = True"
| "before_play (Generate_playBuffer buffer r) = True"
| "before_play (Generate_done r) = False"

definition quiet :: "'v app_state \<Rightarrow> bool" where
  "quiet s \<longleftrightarrow> active_nodes s = [] \<and> sourceNodeRef s = None"

definition serial_inv :: "'v app_state \<Rightarrow> bool" where
  "serial_inv s \<longleftrightarrow>
     (case pending s of
        [] \<Rightarrow> session_inv s
      | [k] \<Rightarrow> (if before_play k then quiet s else session_inv s)
      | k # k' # ks \<Rightarrow> False)"

text \<open>The source node as \<open>playBuffer\<close> leaves it: connected and started.\<close>

definition new_source :: "audio_buffer \<Rightarrow> source_node" where
  "new_source b = \<lparr>node_buffer = b, started = True, stopped = False, ended = False, connected = True\<rparr>"

section \<open>The words of the specification\<close>

text \<open>
  The WAV encoder of the specification: a sample is clamped to \<open>[-1, 1]\<close>, then a
  negative sample is scaled by 32768 and a non-negative one by 32767.
\<close>

definition clamp :: "real \<Rightarrow> real" where
  "clamp s = max (- 1) (min 1 s)"

definition scale16 :: "real \<Rightarrow> real" where
  "scale16 c = (if c < 0 then c * 32768 else c * 32767)"

text \<open>
  The PCM decoder of the specification reads "signed 16-bit little-endian" values: the
  first byte of a pair is the low one, and the pair is a two's-complement number.
\<close>

definition sint16_le :: "byte \<Rightarrow> byte \<Rightarrow> int" where
  "sint16_le lo hi =
     (let u = int (unat lo) + 256 * int (unat hi) in if u < 32768 then u else u - 65536)"

text \<open>
  The WAV header of the specification: four-character tags in ASCII and little-endian
  unsigned integers of 16 and 32 bits, read from a byte sequence at an offset.
\<close>

definition ascii :: "string \<Rightarrow> byte list" where
  "ascii s = map (\<lambda>c. word_of_nat (of_char c)) s"

definition read_le16 :: "byte list \<Rightarrow> nat \<Rightarrow> nat" where
  "read_le16 bytes off = unat (bytes ! off) + 256 * unat (bytes ! (off + 1))"

definition read_le32 :: "byte list \<Rightarrow> nat \<Rightarrow> nat" where
  "read_le32 bytes off =
     unat (bytes ! off) + 256 * unat (bytes ! (off + 1)) +
     65536 * unat (bytes ! (off + 2)) + 16777216 * unat (bytes ! (off + 3))"

text \<open>The buffers of the round-trip property: every sample is a number in \<open>[-1, 1]\<close>.\<close>

definition in_unit_range :: "audio_buffer \<Rightarrow> bool" where
  "in_unit_range b \<longleftrightarrow>
     list_all (list_all (\<lambda>x. case x of Num s \<Rightarrow> - 1 \<le> s \<and> s \<le> 1 | _ \<Rightarrow> False)) (channelData b)"

text \<open>The Base64 alphabet of the specification, as the 64 characters themselves.\<close>

definition b64_alphabet :: js_string where
  "b64_alphabet =
     map (\<lambda>c. word_of_nat (of_char c))
       ''ABCDEFGHIJKLMNOPQRSTUVWXYZabcdefghijklmnopqrstuvwxyz0123456789+/''"

text \<open>
  The Base64 encoding of RFC 4648, for the words "valid base64" and "the exact decoded
  byte sequence" of the specification: three bytes give four 6-bit groups, a last group
  of one or two bytes is filled with zero bits and the text is padded with \<open>=\<close> to a
  multiple of four characters.
\<close>

definition b64_char :: "nat \<Rightarrow> code_unit" where
  "b64_char n =
     (if n < 26 then word_of_nat (n + 0x41)
      else if n < 52 then word_of_nat (n - 26 + 0x61)
      else if n < 62 then word_of_nat (n - 52 + 0x30)
      else if n = 62 then 0x2B
      else 0x2F)"

fun b64_sextets :: "byte list \<Rightarrow> nat list" where
  "b64_sextets (x # y # z # rest) =
     (let n = (unat x * 256 + unat y) * 256 + unat z in
      n div 262144 # n div 4096 mod 64 # n div 64 mod 64 # n mod 64 # b64_sextets rest)"
| "b64_sextets [x, y] =
     (let n = (unat x * 256 + unat y) * 4 in
      [n div 4096, n div 64 mod 64, n mod 64])"
| "b64_sextets [x] = (let n = unat x * 16 in [n div 64, n mod 64])"
| "b64_sextets [] = []"

definition b64_padding :: "nat \<Rightarrow> nat" where
  "b64_padding len = (3 - len mod 3) mod 3"

definition b64_encode :: "byte list \<Rightarrow> js_string" where
  "b64_encode bs = map b64_char (b64_sextets bs) @ replicate (b64_padding (length bs)) 0x3D"

section \<open>Concrete inputs\<close>

text \<open>A running context with exactly the limits the Web Audio API guarantees.\<close>

definition minimal_context :: audio_context where
  "minimal_context = \<lparr>state = Running, maxChannels = 32, minSampleRate = 8000, maxSampleRate = 96000\<rparr>"

text \<open>
  A concrete run: the service answers with the Base64 text \<open>AEA=\<close>, two bytes that are
  one 16-bit sample of value 16384, and the text to speak is one hiragana letter.
\<close>

definition example_api :: "js_string \<Rightarrow> unit \<Rightarrow> api_result" where
  "example_api t v = ApiAnswers (Some [0x41, 0x45, 0x41, 0x3D])"

definition example_buffer :: audio_buffer where
  "example_buffer = \<lparr>sampleRate = 24000, length_frames = 1, channelData = [[Num (1 / 2)]]\<rparr>"

definition example_start :: "bool \<Rightarrow> unit app_state" where
  "example_start stopThrows = initial_state (Inr minimal_context) stopThrows [0x3042] ()"

text \<open>
  One call of \<open>handleGenerateAndPlay\<close> that runs to its end with nothing in between: the
  call and the resumption at each of its five \<open>await\<close>s.
\<close>

definition generate_to_end :: "unit event list" where
  "generate_to_end =
     [GenerateAndPlay example_api, Resume 0, Resume 0, Resume 0, Resume 0, Resume 0]"

section \<open>Properties of the speech service\<close>

lemma dropWhile_all_Nil: "dropWhile P xs = [] \<longleftrightarrow> (\<forall>x\<in>set xs. P x)"
  by (induction xs) auto

lemma trim_empty_iff: "trim s = [] \<longleftrightarrow> (\<forall>c\<in>set s. js_whitespace c)"
proof
  assume "trim s = []"
  then have "dropWhile js_whitespace (rev (dropWhile js_whitespace s)) = []"
    by (simp add: trim_def)
  then have all: "\<forall>c\<in>set (dropWhile js_whitespace s). js_whitespace c"
    by (simp add: dropWhile_all_Nil)
  have "dropWhile js_whitespace s = []"
  proof (cases "dropWhile js_whitespace s")
    case Nil
    then show ?thesis .
  next
    case (Cons y ys)
    then have "\<not> js_whitespace y"
      using hd_dropWhile [of js_whitespace s] by simp
    with all Cons show ?thesis by simp
  qed
  then show "\<forall>c\<in>set s. js_whitespace c"
    by (simp add: dropWhile_all_Nil)
next
  assume "\<forall>c\<in>set s. js_whitespace c"
  then have "dropWhile js_whitespace s = []"
    by (simp add: dropWhile_all_Nil)
  then show "trim s = []"
    by (simp only: trim_def rev.simps dropWhile.simps)
qed

text \<open>
  Claim C9. A text that is empty or made of whitespace only makes
  \<open>generateJapaneseSpeech\<close> throw the error "Please enter some Japanese text." with no
  remote call made; a text with at least one non-whitespace character makes exactly one
  remote call, with that text and voice. So a remote call happens only for texts with a
  non-whitespace character.
\<close>

theorem generateJapaneseSpeech_blank_guard:
  "((\<forall>c\<in>set text. js_whitespace c) \<longrightarrow>
      gen_result (generateJapaneseSpeech api text voiceName)
        = Inl (Error ''Please enter some Japanese text.'') \<and>
      api_calls (generateJapaneseSpeech api text voiceName) = []) \<and>
   ((\<exists>c\<in>set text. \<not> js_whitespace c) \<longrightarrow>
      api_calls (generateJapaneseSpeech api text voiceName) = [(text, voiceName)]) \<and>
   (api_calls (generateJapaneseSpeech api text voiceName) \<noteq> [] \<longrightarrow>
      (\<exists>c\<in>set text. \<not> js_whitespace c))"
proof -
  have blank: "api_calls (generateJapaneseSpeech api text voiceName) = [] \<and>
      gen_result (generateJapaneseSpeech api text voiceName)
        = Inl (Error ''Please enter some Japanese text.'')"
    if "\<forall>c\<in>set text. js_whitespace c"
    using that trim_empty_iff [of "text"] by (simp add: generateJapaneseSpeech_def)
  have called: "api_calls (generateJapaneseSpeech api text voiceName) = [(text, voiceName)]"
    if "\<exists>c\<in>set text. \<not> js_whitespace c"
  proof -
    from that have "trim text \<noteq> []"
      using trim_empty_iff [of "text"] by blast
    then show ?thesis
      by (simp add: generateJapaneseSpeech_def split: api_result.splits)
  qed
  from blank called show ?thesis by fastforce
qed

theorem generateJapaneseSpeech_blank_guard_witness:
  "gen_result (generateJapaneseSpeech (\<lambda>t v. ApiAnswers (Some [0x41])) [0x3000, 0x0020, 0x000A] ())
     = Inl (Error ''Please enter some Japanese text.'') \<and>
   api_calls (generateJapaneseSpeech (\<lambda>t v. ApiAnswers (Some [0x41])) [0x3000, 0x0020, 0x000A] ()) = [] \<and>
   api_calls (generateJapaneseSpeech (\<lambda>t v. ApiAnswers (Some [0x41])) [0x0020, 0x3042] ())
     = [([0x0020, 0x3042], ())]"
proof -
  have ws: "\<forall>c\<in>set [0x3000, 0x0020, 0x000A :: code_unit]. js_whitespace c"
    by (simp add: js_whitespace_def)
  have nws: "\<exists>c\<in>set [0x0020, 0x3042 :: code_unit]. \<not> js_whitespace c"
    by (simp add: js_whitespace_def)
  from ws nws
    generateJapaneseSpeech_blank_guard
      [of "[0x3000, 0x0020, 0x000A]" "\<lambda>t v. ApiAnswers (Some [0x41])" "()"]
    generateJapaneseSpeech_blank_guard
      [of "[0x0020, 0x3042]" "\<lambda>t v. ApiAnswers (Some [0x41])" "()"]
  show ?thesis by blast
qed

section \<open>Properties of the typed arrays and of the WAV encoder\<close>

lemma length_typed_set [simp]: "length (typed_set xs i v) = length xs"
  by (simp add: typed_set_def)

lemma nth_typed_set: "j < length xs \<Longrightarrow> typed_set xs i v ! j = (if j = i then v else xs ! j)"
  by (simp add: typed_set_def)

lemma length_fold_typed_set [simp]:
  "length (fold (\<lambda>k d. typed_set d (g k) (v k)) ks d) = length d"
  by (induction ks arbitrary: d) simp_all

lemma row_fold_nth:
  assumes "j < length d"
  shows "fold (\<lambda>ch d'. typed_set d' (base + ch) (v ch)) [0..<m] d ! j
         = (if base \<le> j \<and> j < base + m then v (j - base) else d ! j)"
  using assms
proof (induction m)
  case 0
  then show ?case by auto
next
  case (Suc m)
  then show ?case
    by (auto simp: nth_typed_set)
qed

lemma interleave_fold_nth:
  assumes "j < length d" "0 < n"
  shows "fold (\<lambda>i d. fold (\<lambda>ch d'. typed_set d' (i * n + ch) (v i ch)) [0..<n] d) [0..<k] d ! j
         = (if j < k * n then v (j div n) (j mod n) else d ! j)"
  using assms
proof (induction k)
  case 0
  then show ?case by simp
next
  case (Suc k)
  have len: "j < length (fold (\<lambda>i d. fold (\<lambda>ch d'. typed_set d' (i * n + ch) (v i ch)) [0..<n] d) [0..<k] d)"
    using Suc.prems(1) by (induction k arbitrary: d) simp_all
  show ?case
  proof (cases "k * n \<le> j \<and> j < k * n + n")
    case True
    then have "j div n = k" "j mod n = j - k * n"
      using \<open>0 < n\<close>
      apply -
       apply (metis div_nat_eqI mult.commute mult_Suc_right add.commute)
      by (metis True add.commute le_add_diff_inverse mod_less mod_mult_self1 nat_add_left_cancel_less)
    with True len show ?thesis
      by (simp add: row_fold_nth)
  next
    case False
    with len Suc show ?thesis
      by (auto simp: row_fold_nth)
  qed
qed


lemma sint_int16_of_int:
  assumes "- 32768 \<le> k" "k < 32768"
  shows "sint (word_of_int k :: int16) = k"
proof -
  have "sint (word_of_int k :: int16) = (k + 32768) mod 65536 - 32768"
    by (simp add: int_word_sint)
  also have "(k + 32768) mod 65536 = k + 32768"
    using assms by simp
  finally show ?thesis by simp
qed

lemma js_trunc_bounds:
  assumes "lo \<le> r" "r \<le> hi"
  shows "\<lfloor>lo\<rfloor> \<le> js_trunc r \<and> js_trunc r \<le> \<lceil>hi\<rceil>"
  using assms unfolding js_trunc_def
  by (auto intro: floor_mono ceiling_mono order_trans [OF floor_mono floor_le_ceiling]
        order_trans [OF floor_le_ceiling ceiling_mono])

lemma clipped_Num:
  "Math_max (Num (- 1)) (Math_min (Num 1) (Num s)) = Num (clamp s)"
  by (simp add: Math_max_def Math_min_def clamp_def max_def min_def)

lemma scale16_clamp_bounds: "- 32768 \<le> scale16 (clamp s) \<and> scale16 (clamp s) \<le> 32767"
  by (simp add: scale16_def clamp_def max_def min_def)

lemma encode_sample_Num:
  "sint (encode_sample (Num s)) = js_trunc (scale16 (clamp s))"
proof -
  have enc: "encode_sample (Num s) = word_of_int (js_trunc (scale16 (clamp s)))"
    by (simp add: encode_sample_def clipped_Num scale16_def Let_def)
  have "\<lfloor>- 32768 :: real\<rfloor> \<le> js_trunc (scale16 (clamp s)) \<and> js_trunc (scale16 (clamp s)) \<le> \<lceil>32767 :: real\<rceil>"
    using scale16_clamp_bounds [of s] by (intro js_trunc_bounds) simp_all
  then have "- 32768 \<le> js_trunc (scale16 (clamp s))" "js_trunc (scale16 (clamp s)) < 32768"
    by simp_all
  then show ?thesis
    by (simp add: enc sint_int16_of_int)
qed

lemma encode_sample_special:
  "encode_sample NaN = 0" "sint (encode_sample PosInf) = 32767" "sint (encode_sample NegInf) = - 32768"
  by (simp_all add: encode_sample_def Math_max_def Math_min_def js_trunc_def)


lemma unat_byte_of_nat: "n < 256 \<Longrightarrow> unat (word_of_nat n :: byte) = n"
  by (simp add: unat_of_nat)

lemma unat_int16_less: "unat (w :: int16) < 65536"
proof -
  have "unat w < 2 ^ LENGTH(16)" by (rule unsigned_less)
  then show ?thesis by simp
qed

lemma int16_elements_bytes: "int16_elements (int16_bytes ws) = ws"
proof (induction ws)
  case Nil
  then show ?case by simp
next
  case (Cons w ws)
  have "unat w div 256 < 256"
    using unat_int16_less [of w] by simp
  then have "unat (word_of_nat (unat w mod 256) :: byte) + 256 * unat (word_of_nat (unat w div 256) :: byte) = unat w"
    by (simp add: unat_byte_of_nat)
  then show ?case
    using Cons by simp
qed

lemma length_int16_bytes: "length (int16_bytes ws) = 2 * length ws"
  by (induction ws) simp_all

lemma length_setUint8 [simp]: "length (setUint8 v off x) = length v"
  by (simp add: setUint8_def)

lemma length_setUint16 [simp]: "length (setUint16 v off x) = length v"
  by (simp add: setUint16_def Let_def)

lemma length_setUint32 [simp]: "length (setUint32 v off x) = length v"
  by (simp add: setUint32_def Let_def)

lemma length_writeString [simp]: "length (writeString v off str) = length v"
proof -
  have "length (fold (\<lambda>i v. setUint8 v (off + i) (of_char (str ! i))) ks v) = length v" for ks
    by (induction ks arbitrary: v) simp_all
  then show ?thesis by (simp add: writeString_def)
qed

lemma length_wav_header: "length (wav_header nc rate n) = 44"
  by (simp add: wav_header_def Let_def)

lemma length_interleave: "length (interleave b) = length_frames b * numberOfChannels b"
proof -
  have "length (fold (\<lambda>i d. fold (\<lambda>ch d'. typed_set d' (i * n + ch) (v i ch)) [0..<n] d) ks d) = length d"
    for n ks d and v :: "nat \<Rightarrow> nat \<Rightarrow> int16"
    by (induction ks arbitrary: d) simp_all
  then show ?thesis by (simp add: interleave_def Let_def)
qed

lemma interleave_nth:
  assumes "i < length_frames b" "ch < numberOfChannels b"
  shows "interleave b ! (i * numberOfChannels b + ch) = encode_sample (channel_sample b ch i)"
proof -
  let ?n = "numberOfChannels b"
  have pos: "0 < ?n" using assms by simp
  have "i * ?n + ch < i * ?n + ?n" using assms by simp
  also have "\<dots> = Suc i * ?n" by simp
  also have "\<dots> \<le> length_frames b * ?n"
    using assms(1) by (intro mult_le_mono1) simp
  finally have lt: "i * ?n + ch < length_frames b * ?n" .
  have dm: "(i * ?n + ch) div ?n = i" "(i * ?n + ch) mod ?n = ch"
    using assms(2) by simp_all
  show ?thesis
    unfolding interleave_def Let_def
    using lt dm pos
    by (simp add: interleave_fold_nth [where v = "\<lambda>i ch. encode_sample (channel_sample b ch i)"])
qed

lemma channel_sample_wf:
  assumes "well_formed b" "i < length_frames b" "ch < numberOfChannels b"
  shows "channel_sample b ch i = channelData b ! ch ! i"
proof -
  have "length (channelData b ! ch) = length_frames b"
    using assms by (simp add: well_formed_def numberOfChannels_def list_all_length)
  then show ?thesis
    using assms by (simp add: channel_sample_def typed_get_def numberOfChannels_def)
qed

lemma wav_data_section:
  "int16_elements (drop 44 (blob_bytes (audioBufferToWav b))) = interleave b"
  by (simp add: audioBufferToWav_def Let_def length_wav_header int16_elements_bytes)

text \<open>
  Claim C3. For every sample of the buffer passed to \<open>audioBufferToWav\<close>, the 16-bit
  value stored for it in the data section of the file (frame \<open>i\<close>, channel \<open>ch\<close>, at
  position \<open>i * numberOfChannels + ch\<close>) is the sample clamped to \<open>[-1, 1]\<close>, then
  multiplied by 32768 when negative and by 32767 otherwise, and truncated to an integer
  by the store into the \<open>Int16Array\<close>. The infinities are clamped to 1 and -1 likewise;
  a \<open>NaN\<close> sample is stored as 0.
\<close>

theorem audioBufferToWav_clamps_and_scales:
  assumes "well_formed b" "i < length_frames b" "ch < numberOfChannels b"
  shows "sint (int16_elements (drop 44 (blob_bytes (audioBufferToWav b)))
                ! (i * numberOfChannels b + ch))
         = (case channelData b ! ch ! i of
              Num s \<Rightarrow> js_trunc (scale16 (clamp s))
            | NaN \<Rightarrow> 0
            | PosInf \<Rightarrow> js_trunc (scale16 1)
            | NegInf \<Rightarrow> js_trunc (scale16 (- 1)))"
  using assms
  by (simp add: wav_data_section interleave_nth channel_sample_wf encode_sample_Num
        encode_sample_special scale16_def js_trunc_def split: js_num.splits)

theorem audioBufferToWav_clamps_and_scales_witness:
  "well_formed \<lparr>sampleRate = 24000, length_frames = 2,
       channelData = [[Num (1/2), Num (- 3/2)], [Num (- 1/4), NaN]]\<rparr> \<and>
   sint (int16_elements (drop 44 (blob_bytes (audioBufferToWav
          \<lparr>sampleRate = 24000, length_frames = 2,
           channelData = [[Num (1/2), Num (- 3/2)], [Num (- 1/4), NaN]]\<rparr>))) ! 2) = - 32768"
proof -
  let ?b = "\<lparr>sampleRate = 24000, length_frames = 2,
       channelData = [[Num (1/2), Num (- 3/2)], [Num (- 1/4), NaN]]\<rparr>"
  have wf: "well_formed ?b"
    by (simp add: well_formed_def numberOfChannels_def)
  have "sint (int16_elements (drop 44 (blob_bytes (audioBufferToWav ?b)))
                ! (1 * numberOfChannels ?b + 0))
         = (case channelData ?b ! 0 ! 1 of
              Num s \<Rightarrow> js_trunc (scale16 (clamp s))
            | NaN \<Rightarrow> 0
            | PosInf \<Rightarrow> js_trunc (scale16 1)
            | NegInf \<Rightarrow> js_trunc (scale16 (- 1)))"
    by (rule audioBufferToWav_clamps_and_scales [OF wf]) (simp_all add: numberOfChannels_def)
  moreover have "1 * numberOfChannels ?b + 0 = 2"
    by (simp add: numberOfChannels_def)
  ultimately have "sint (int16_elements (drop 44 (blob_bytes (audioBufferToWav ?b))) ! 2)
         = (case channelData ?b ! 0 ! 1 of
              Num s \<Rightarrow> js_trunc (scale16 (clamp s))
            | NaN \<Rightarrow> 0
            | PosInf \<Rightarrow> js_trunc (scale16 1)
            | NegInf \<Rightarrow> js_trunc (scale16 (- 1)))"
    by (simp only:)
  also have "\<dots> = - 32768"
    by (simp add: js_trunc_def scale16_def clamp_def)
  finally show ?thesis
    using wf by simp
qed

section \<open>Properties of the PCM decoder\<close>

lemma unat_byte_less: "unat (w :: byte) < 256"
proof -
  have "unat w < 2 ^ LENGTH(8)" by (rule unsigned_less)
  then show ?thesis by simp
qed

lemma signed_of_unsigned16:
  fixes u :: int
  assumes "0 \<le> u" "u < 65536"
  shows "(u + 32768) mod 65536 - 32768 = (if u < 32768 then u else u - 65536)"
proof (cases "u < 32768")
  case True
  with assms show ?thesis by simp
next
  case False
  have e: "u + 32768 = (u - 32768) + 65536"
    by arith
  have "(u + 32768) mod 65536 = (u - 32768) mod 65536"
    by (subst e) (rule mod_add_self2)
  also have "\<dots> = u - 32768"
    using assms False by simp
  finally show ?thesis
    using False by simp
qed

lemma sint_int16_of_bytes:
  "sint (word_of_nat (unat lo + 256 * unat hi) :: int16) = sint16_le lo hi"
proof -
  define u where "u = int (unat lo) + 256 * int (unat hi)"
  have "uint lo < 2 ^ LENGTH(8)" "uint hi < 2 ^ LENGTH(8)"
    by (rule unsigned_less)+
  then have u: "0 \<le> u" "u < 65536"
    by (simp_all add: u_def)
  have "(word_of_nat (unat lo + 256 * unat hi) :: int16) = word_of_int u"
    by (simp add: u_def)
  then have "sint (word_of_nat (unat lo + 256 * unat hi) :: int16) = (u + 32768) mod 65536 - 32768"
    by (simp only: int_word_sint) simp
  also have "\<dots> = (if u < 32768 then u else u - 65536)"
    using u by (rule signed_of_unsigned16)
  finally show ?thesis
    by (simp add: sint16_le_def Let_def u_def)
qed

lemma length_int16_elements: "length (int16_elements bs) = length bs div 2"
  by (induction bs rule: int16_elements.induct) simp_all

lemma int16_elements_nth:
  "2 * k + 1 < length bs \<Longrightarrow>
   int16_elements bs ! k = word_of_nat (unat (bs ! (2 * k)) + 256 * unat (bs ! (2 * k + 1)))"
proof (induction bs arbitrary: k rule: int16_elements.induct)
  case (1 lo hi rest)
  show ?case
  proof (cases k)
    case 0
    then show ?thesis by simp
  next
    case (Suc j)
    with 1 show ?thesis by simp
  qed
qed simp_all

lemma fill_fold_nth:
  assumes "j < length d"
  shows "fold (\<lambda>i cd. typed_set cd i (v i)) [0..<m] d ! j = (if j < m then v j else d ! j)"
  using assms
  by (induction m) (auto simp: nth_typed_set)

lemma length_fill_fold [simp]:
  "length (fold (\<lambda>i cd. typed_set cd i (v i)) ks d) = length d"
  by (induction ks arbitrary: d) simp_all

lemma length_decode_channel [simp]:
  "length (decode_channel dataInt16 nc fc ch cd) = length cd"
  by (simp add: decode_channel_def)

lemma decode_channel_nth:
  assumes "j < length cd" "length cd \<le> nat \<lceil>r\<rceil>"
  shows "decode_channel dataInt16 nc (Num r) ch cd ! j = sample_of_int16 dataInt16 (j * nc + ch)"
  using assms by (simp add: decode_channel_def fill_fold_nth)

lemma channels_fold_record:
  "fold (\<lambda>channel b. b\<lparr>channelData := g channel (channelData b)\<rparr>) ks b
   = b\<lparr>channelData := fold g ks (channelData b)\<rparr>"
  by (induction ks arbitrary: b) simp_all

lemma length_channels_fold [simp]:
  "length (fold (\<lambda>c cs. cs[c := f c (cs ! c)]) ks cs) = length cs"
  by (induction ks arbitrary: cs) simp_all

lemma channels_fold_nth:
  assumes "j < length cs"
  shows "fold (\<lambda>c cs. cs[c := f c (cs ! c)]) [0..<m] cs ! j = (if j < m then f j (cs ! j) else cs ! j)"
  using assms
proof (induction m arbitrary: j)
  case 0
  then show ?case by simp
next
  case (Suc m)
  show ?case
  proof (cases "j = m")
    case True
    with Suc.prems Suc.IH [of m] show ?thesis by simp
  next
    case False
    with Suc.prems Suc.IH [of j] show ?thesis by (simp add: nth_list_update)
  qed
qed

lemma js_trunc_of_nat_div: "js_trunc (real n / real nc) = int (n div nc)"
proof -
  have "\<not> real n / real nc < 0" by (simp add: not_less)
  then have "js_trunc (real n / real nc) = \<lfloor>real n / real nc\<rfloor>"
    unfolding js_trunc_def by (simp only: if_False)
  also have "\<dots> = int (n div nc)"
    by (simp add: floor_divide_of_nat_eq)
  finally show ?thesis .
qed

lemma to_unsigned_long_frame_count:
  assumes "0 < nc" "n div nc < 2 ^ 32"
  shows "to_unsigned_long (frame_count n nc) = n div nc"
proof -
  have "int (n div nc) < 2 ^ 32"
    using assms(2) by (metis of_nat_less_iff of_nat_numeral of_nat_power)
  then have "int (n div nc) mod 2 ^ 32 = int (n div nc)"
    by simp
  then show ?thesis
    using assms(1) by (simp add: frame_count_def js_trunc_of_nat_div)
qed

lemma frame_index_in_range:
  assumes "i < n div nc" "ch < nc"
  shows "i * nc + ch < (n :: nat)"
proof -
  have "i * nc + ch < i * nc + nc" using assms(2) by simp
  also have "\<dots> = Suc i * nc" by simp
  also have "\<dots> \<le> (n div nc) * nc"
    using assms(1) by (intro mult_le_mono1) simp
  also have "\<dots> \<le> n" by simp
  finally show ?thesis .
qed

lemma div_le_ceiling: "n div nc \<le> nat \<lceil>real n / real nc\<rceil>"
proof -
  have "int (n div nc) = \<lfloor>real n / real nc\<rfloor>"
    by (simp add: floor_divide_of_nat_eq)
  also have "\<dots> \<le> \<lceil>real n / real nc\<rceil>"
    by (rule floor_le_ceiling)
  finally show ?thesis by simp
qed

lemma decodeAudioData_even:
  assumes even: "even (length data)"
    and nc: "0 < nc" "nc \<le> maxChannels ctx"
    and rate: "minSampleRate ctx \<le> rate" "rate \<le> maxSampleRate ctx"
    and frames: "0 < length data div 2 div nc" "length data div 2 div nc < 2 ^ 32"
  shows "decodeAudioData data ctx rate nc =
           Inr \<lparr>sampleRate = rate, length_frames = length data div 2 div nc,
                channelData =
                  map (\<lambda>ch. map (\<lambda>i. Num (real_of_int (sint (int16_elements data ! (i * nc + ch))) / 32768))
                                [0..<length data div 2 div nc])
                      [0..<nc]\<rparr>"
proof -
  let ?d = "int16_elements data"
  let ?n = "length data div 2"
  let ?F = "?n div nc"
  let ?fc = "frame_count ?n nc"
  let ?f = "\<lambda>c cd. decode_channel ?d nc ?fc c cd"
  let ?cs0 = "replicate nc (replicate ?F (Num 0))"
  have arr: "new_Int16Array data = Inr ?d"
    using even by (simp add: new_Int16Array_def)
  have len: "length ?d = ?n"
    by (rule length_int16_elements)
  have ul: "to_unsigned_long ?fc = ?F"
    using nc(1) frames(2) by (rule to_unsigned_long_frame_count)
  have cb: "createBuffer ctx nc ?fc rate =
      Inr \<lparr>sampleRate = rate, length_frames = ?F, channelData = ?cs0\<rparr>"
    using nc rate frames(1) by (simp add: createBuffer_def ul Let_def)
  have fcnum: "?fc = Num (real ?n / real nc)"
    using nc(1) by (simp add: frame_count_def)
  have chans: "fold (\<lambda>c cs. cs[c := ?f c (cs ! c)]) [0..<nc] ?cs0
      = map (\<lambda>ch. map (\<lambda>i. Num (real_of_int (sint (?d ! (i * nc + ch))) / 32768)) [0..<?F]) [0..<nc]"
  proof (rule nth_equalityI)
    show "length (fold (\<lambda>c cs. cs[c := ?f c (cs ! c)]) [0..<nc] ?cs0)
        = length (map (\<lambda>ch. map (\<lambda>i. Num (real_of_int (sint (?d ! (i * nc + ch))) / 32768)) [0..<?F]) [0..<nc])"
      by simp
  next
    fix ch
    assume "ch < length (fold (\<lambda>c cs. cs[c := ?f c (cs ! c)]) [0..<nc] ?cs0)"
    then have ch: "ch < nc" by simp
    have "fold (\<lambda>c cs. cs[c := ?f c (cs ! c)]) [0..<nc] ?cs0 ! ch = ?f ch (replicate ?F (Num 0))"
      using ch by (simp add: channels_fold_nth)
    also have "\<dots> = map (\<lambda>i. Num (real_of_int (sint (?d ! (i * nc + ch))) / 32768)) [0..<?F]"
    proof (rule nth_equalityI)
      show "length (?f ch (replicate ?F (Num 0)))
          = length (map (\<lambda>i. Num (real_of_int (sint (?d ! (i * nc + ch))) / 32768)) [0..<?F])"
        by simp
    next
      fix i
      assume "i < length (?f ch (replicate ?F (Num 0)))"
      then have i: "i < ?F" by simp
      have idx: "i * nc + ch < length ?d"
        using i ch by (simp add: len frame_index_in_range)
      have "?f ch (replicate ?F (Num 0)) ! i = sample_of_int16 ?d (i * nc + ch)"
        unfolding fcnum using i by (intro decode_channel_nth) (simp_all add: div_le_ceiling)
      also have "\<dots> = Num (real_of_int (sint (?d ! (i * nc + ch))) / 32768)"
        using idx by (simp add: sample_of_int16_def typed_get_def)
      finally show "?f ch (replicate ?F (Num 0)) ! i
          = map (\<lambda>i. Num (real_of_int (sint (?d ! (i * nc + ch))) / 32768)) [0..<?F] ! i"
        using i by simp
    qed
    finally show "fold (\<lambda>c cs. cs[c := ?f c (cs ! c)]) [0..<nc] ?cs0 ! ch
        = map (\<lambda>ch. map (\<lambda>i. Num (real_of_int (sint (?d ! (i * nc + ch))) / 32768)) [0..<?F]) [0..<nc] ! ch"
      using ch by simp
  qed
  show ?thesis
    unfolding decodeAudioData_def
    by (simp add: arr len cb Let_def
          channels_fold_record [where g = "\<lambda>c cs. cs[c := ?f c (cs ! c)]"] chans)
qed

lemma decodeAudioData_odd:
  "odd (length data) \<Longrightarrow> decodeAudioData data ctx rate nc = Inl RangeError"
  by (simp add: decodeAudioData_def new_Int16Array_def odd_iff_mod_2_eq_one)

lemma to_unsigned_long_no_frame:
  assumes "n div nc = 0"
  shows "to_unsigned_long (frame_count n nc) = 0"
  using assms by (simp add: frame_count_def js_trunc_of_nat_div)

lemma decodeAudioData_no_frame:
  assumes "even (length data)" "length data div 2 div nc = 0"
  shows "decodeAudioData data ctx rate nc = Inl NotSupportedError"
proof -
  have "new_Int16Array data = Inr (int16_elements data)"
    using assms(1) by (simp add: new_Int16Array_def)
  moreover have "to_unsigned_long (frame_count (length (int16_elements data)) nc) = 0"
    using assms(2) by (simp add: length_int16_elements to_unsigned_long_no_frame)
  ultimately show ?thesis
    by (simp add: decodeAudioData_def createBuffer_def Let_def)
qed

lemma int16_elements_sint:
  assumes "2 * k + 1 < length bs"
  shows "sint (int16_elements bs ! k) = sint16_le (bs ! (2 * k)) (bs ! (2 * k + 1))"
  using assms by (simp only: int16_elements_nth sint_int16_of_bytes)

text \<open>
  Claim C1, as amended. \<open>decodeAudioData\<close> throws a \<open>RangeError\<close> on a byte sequence of
  odd length (the \<open>Int16Array\<close> view cannot be built) and a \<open>NotSupportedError\<close> on an
  even one that holds no complete frame (\<open>createBuffer\<close> rejects the length 0). On a
  byte sequence of even length with at least one complete frame (and fewer than
  \<open>2 ^ 32\<close>), for a channel count and a sample rate the context supports, it returns
  an \<open>AudioBuffer\<close> with \<open>\<lfloor>byteLength / 2 / channelCount\<rfloor>\<close> samples in each channel,
  sample \<open>i\<close> of channel \<open>ch\<close> being the signed 16-bit little-endian value at bytes
  \<open>2 * (i * channelCount + ch)\<close> and the next one, divided by 32768: a trailing partial
  frame made of whole 16-bit values is dropped without an error.
\<close>

theorem decodeAudioData_deinterleaves:
  "(odd (length data) \<longrightarrow> decodeAudioData data ctx rate nc = Inl RangeError) \<and>
   (even (length data) \<and> length data div 2 div nc = 0 \<longrightarrow>
      decodeAudioData data ctx rate nc = Inl NotSupportedError) \<and>
   (even (length data) \<and> 0 < length data div 2 div nc \<and> length data div 2 div nc < 2 ^ 32 \<and>
    0 < nc \<and> nc \<le> maxChannels ctx \<and> minSampleRate ctx \<le> rate \<and> rate \<le> maxSampleRate ctx \<longrightarrow>
      decodeAudioData data ctx rate nc =
        Inr \<lparr>sampleRate = rate, length_frames = length data div 2 div nc,
             channelData =
               map (\<lambda>ch. map (\<lambda>i. Num (real_of_int
                                  (sint16_le (data ! (2 * (i * nc + ch))) (data ! (2 * (i * nc + ch) + 1)))
                                / 32768))
                             [0..<length data div 2 div nc])
                   [0..<nc]\<rparr>)"
proof (intro conjI impI)
  assume "odd (length data)"
  then show "decodeAudioData data ctx rate nc = Inl RangeError"
    by (rule decodeAudioData_odd)
next
  assume "even (length data) \<and> length data div 2 div nc = 0"
  then show "decodeAudioData data ctx rate nc = Inl NotSupportedError"
    by (simp add: decodeAudioData_no_frame)
next
  assume h: "even (length data) \<and> 0 < length data div 2 div nc \<and> length data div 2 div nc < 2 ^ 32 \<and>
    0 < nc \<and> nc \<le> maxChannels ctx \<and> minSampleRate ctx \<le> rate \<and> rate \<le> maxSampleRate ctx"
  let ?F = "length data div 2 div nc"
  have el: "sint (int16_elements data ! (i * nc + ch))
      = sint16_le (data ! (2 * (i * nc + ch))) (data ! (2 * (i * nc + ch) + 1))"
    if "i < ?F" "ch < nc" for i ch
  proof -
    have "i * nc + ch < length data div 2"
      using that by (rule frame_index_in_range)
    then have "2 * (i * nc + ch) + 1 < length data"
      using h by (auto elim!: evenE)
    then show ?thesis by (rule int16_elements_sint)
  qed
  have "map (\<lambda>ch. map (\<lambda>i. Num (real_of_int (sint (int16_elements data ! (i * nc + ch))) / 32768)) [0..<?F]) [0..<nc]
      = map (\<lambda>ch. map (\<lambda>i. Num (real_of_int
                 (sint16_le (data ! (2 * (i * nc + ch))) (data ! (2 * (i * nc + ch) + 1))) / 32768))
               [0..<?F]) [0..<nc]"
  proof (rule map_cong [OF refl], rule map_cong [OF refl])
    fix ch i
    assume "ch \<in> set [0..<nc]" "i \<in> set [0..<?F]"
    then have "i < ?F" "ch < nc" by simp_all
    then show "Num (real_of_int (sint (int16_elements data ! (i * nc + ch))) / 32768)
        = Num (real_of_int (sint16_le (data ! (2 * (i * nc + ch))) (data ! (2 * (i * nc + ch) + 1))) / 32768)"
      by (simp only: el)
  qed
  moreover have "decodeAudioData data ctx rate nc =
        Inr \<lparr>sampleRate = rate, length_frames = ?F,
             channelData =
               map (\<lambda>ch. map (\<lambda>i. Num (real_of_int (sint (int16_elements data ! (i * nc + ch))) / 32768))
                             [0..<?F]) [0..<nc]\<rparr>"
    using h by (intro decodeAudioData_even) simp_all
  ultimately show "decodeAudioData data ctx rate nc =
        Inr \<lparr>sampleRate = rate, length_frames = ?F,
             channelData =
               map (\<lambda>ch. map (\<lambda>i. Num (real_of_int
                                  (sint16_le (data ! (2 * (i * nc + ch))) (data ! (2 * (i * nc + ch) + 1)))
                                / 32768))
                             [0..<?F])
                   [0..<nc]\<rparr>"
    by (simp only:)
qed

theorem decodeAudioData_deinterleaves_witness:
  "decodeAudioData [0x01, 0x02, 0x03] minimal_context 24000 1 = Inl RangeError \<and>
   decodeAudioData [0x01, 0x02] minimal_context 24000 2 = Inl NotSupportedError \<and>
   decodeAudioData [0x00, 0x40, 0x00, 0x80, 0x34, 0x12] minimal_context 24000 2
     = Inr \<lparr>sampleRate = 24000, length_frames = 1, channelData = [[Num (1 / 2)], [Num (- 1)]]\<rparr>"
proof -
  have a: "odd (length [0x01, 0x02, 0x03 :: byte])" by simp
  have b: "even (length [0x01, 0x02 :: byte]) \<and> length [0x01, 0x02 :: byte] div 2 div 2 = 0" by simp
  let ?d = "[0x00, 0x40, 0x00, 0x80, 0x34, 0x12 :: byte]"
  have c: "even (length ?d) \<and> 0 < length ?d div 2 div 2 \<and> length ?d div 2 div 2 < 2 ^ 32 \<and>
      0 < (2::nat) \<and> 2 \<le> maxChannels minimal_context \<and> minSampleRate minimal_context \<le> 24000 \<and>
      24000 \<le> maxSampleRate minimal_context"
    by (simp add: minimal_context_def)
  have F: "length ?d div 2 div 2 = 1" by simp
  have u: "[0..<2] = [0, 1]" "[0..<1] = [0]" by (simp_all add: upt_rec)
  from a b c
    decodeAudioData_deinterleaves [of "[0x01, 0x02, 0x03]" minimal_context 24000 1]
    decodeAudioData_deinterleaves [of "[0x01, 0x02]" minimal_context 24000 2]
    decodeAudioData_deinterleaves [of ?d minimal_context 24000 2]
  show ?thesis
    unfolding F u by (simp add: sint16_le_def)
qed

text \<open>
  Claim C1 as stated fails: three bytes, mono. The byte length is not a multiple of
  \<open>2 * channelCount\<close>, and the trailing byte is not dropped: the call throws.
\<close>

theorem decodeAudioData_odd_length_counterexample:
  "decodeAudioData [0x00, 0x40, 0x7F] minimal_context 24000 1 = Inl RangeError"
  by (simp add: decodeAudioData_def new_Int16Array_def)

text \<open>
  Claim C7, as amended. On the empty byte sequence \<open>decodeAudioData\<close> returns no
  \<open>AudioBuffer\<close>: the frame count is 0, and \<open>createBuffer\<close> rejects a buffer of length 0
  with a \<open>NotSupportedError\<close>, whatever the context, the rate and the channel count.
\<close>

theorem decodeAudioData_empty:
  "decodeAudioData [] ctx rate nc = Inl NotSupportedError"
  by (simp add: decodeAudioData_no_frame)

text \<open>
  Claim C7 as stated fails: on the empty byte sequence, at 24000 Hz mono, no buffer with
  zero samples is returned.
\<close>

theorem decodeAudioData_empty_counterexample:
  "decodeAudioData [] minimal_context 24000 1 = Inl NotSupportedError"
  by (simp add: decodeAudioData_def new_Int16Array_def frame_count_def createBuffer_def
        js_trunc_def)

section \<open>Properties of the WAV header\<close>

lemma nth_setUint8:
  "k < length v \<Longrightarrow> setUint8 v off x ! k = (if k = off then word_of_nat (x mod 256) else v ! k)"
  by (simp add: setUint8_def nth_list_update)

lemma nth_setUint16:
  "k < length v \<Longrightarrow> setUint16 v off x ! k =
     (if k = off + 1 then word_of_nat (x mod 2 ^ 16 div 256)
      else if k = off then word_of_nat (x mod 2 ^ 16 mod 256)
      else v ! k)"
  by (simp add: setUint16_def Let_def nth_list_update)

lemma nth_setUint32:
  "k < length v \<Longrightarrow> setUint32 v off x ! k =
     (if k = off + 3 then word_of_nat (x mod 2 ^ 32 div 16777216)
      else if k = off + 2 then word_of_nat (x mod 2 ^ 32 div 65536 mod 256)
      else if k = off + 1 then word_of_nat (x mod 2 ^ 32 div 256 mod 256)
      else if k = off then word_of_nat (x mod 2 ^ 32 mod 256)
      else v ! k)"
  by (simp add: setUint32_def Let_def nth_list_update)

lemma writeString4:
  "writeString view off [a, b, c, d] =
     setUint8 (setUint8 (setUint8 (setUint8 view off (of_char a)) (off + 1) (of_char b))
       (off + 2) (of_char c)) (off + 3) (of_char d)"
proof -
  have "[0..<4] = [0, 1, 2, 3]" by (simp add: upt_rec)
  then show ?thesis by (simp add: writeString_def numeral_3_eq_3)
qed

lemmas header_simps = wav_header_def Let_def writeString4 nth_setUint8 nth_setUint16 nth_setUint32

lemma unat_byte_mod: "unat (word_of_nat (x mod 256) :: byte) = x mod 256"
  by (simp add: unat_of_nat)

lemma unat_byte_div16: "x < 65536 \<Longrightarrow> unat (word_of_nat (x div 256) :: byte) = x div 256"
  by (simp add: unat_of_nat)

lemma unat_byte_div32: "x < 4294967296 \<Longrightarrow> unat (word_of_nat (x div 16777216) :: byte) = x div 16777216"
  by (simp add: unat_of_nat)

lemma le16_recompose: "x mod 256 + 256 * (x div 256) = (x::nat)"
  by simp

lemma le32_recompose:
  "x mod 256 + 256 * (x div 256 mod 256) + 65536 * (x div 65536 mod 256) + 16777216 * (x div 16777216) = (x::nat)"
proof -
  define A B C where "A = x div 256" and "B = A div 256" and "C = B div 256"
  define r0 r1 r2 where "r0 = x mod 256" and "r1 = A mod 256" and "r2 = B mod 256"
  have a: "x div 65536 = B" "x div 16777216 = C"
    by (simp_all add: A_def B_def C_def div_mult2_eq [symmetric])
  have "x = r0 + 256 * A" "A = r1 + 256 * B" "B = r2 + 256 * C"
    by (simp_all add: A_def B_def C_def r0_def r1_def r2_def)
  then have "r0 + 256 * r1 + 65536 * r2 + 16777216 * C = x"
    by arith
  then show ?thesis
    unfolding a by (simp only: A_def [symmetric] r0_def r1_def r2_def)
qed

lemma read_le32_bytes:
  assumes "v ! off = word_of_nat (x mod 2 ^ 32 mod 256)"
    "v ! (off + 1) = word_of_nat (x mod 2 ^ 32 div 256 mod 256)"
    "v ! (off + 2) = word_of_nat (x mod 2 ^ 32 div 65536 mod 256)"
    "v ! (off + 3) = word_of_nat (x mod 2 ^ 32 div 16777216)"
  shows "read_le32 v off = x mod 2 ^ 32"
proof -
  let ?y = "x mod 2 ^ 32"
  have "?y < 4294967296" by simp
  then have "unat (word_of_nat (?y div 16777216) :: byte) = ?y div 16777216"
    by (rule unat_byte_div32)
  then have "read_le32 v off = ?y mod 256 + 256 * (?y div 256 mod 256) + 65536 * (?y div 65536 mod 256)
      + 16777216 * (?y div 16777216)"
    unfolding read_le32_def assms by (simp only: unat_byte_mod)
  then show ?thesis
    by (simp only: le32_recompose)
qed

lemma read_le16_bytes:
  assumes "v ! off = word_of_nat (x mod 2 ^ 16 mod 256)"
    "v ! (off + 1) = word_of_nat (x mod 2 ^ 16 div 256)"
  shows "read_le16 v off = x mod 2 ^ 16"
proof -
  let ?y = "x mod 2 ^ 16"
  have "?y < 65536" by simp
  then have "unat (word_of_nat (?y div 256) :: byte) = ?y div 256"
    by (rule unat_byte_div16)
  then have "read_le16 v off = ?y mod 256 + 256 * (?y div 256)"
    unfolding read_le16_def assms by (simp only: unat_byte_mod)
  then show ?thesis
    by (simp only: le16_recompose)
qed

lemma header_riff_size: "read_le32 (wav_header nc rate n) 4 = (36 + n) mod 2 ^ 32"
  by (rule read_le32_bytes) (simp_all add: header_simps)

lemma header_fmt_size: "read_le32 (wav_header nc rate n) 16 = 16"
  using read_le32_bytes [of "wav_header nc rate n" 16 16] by (simp add: header_simps)

lemma header_format: "read_le16 (wav_header nc rate n) 20 = 1"
  using read_le16_bytes [of "wav_header nc rate n" 20 1] by (simp add: header_simps)

lemma header_channels: "read_le16 (wav_header nc rate n) 22 = nc mod 2 ^ 16"
  by (rule read_le16_bytes) (simp_all add: header_simps)

lemma header_rate: "read_le32 (wav_header nc rate n) 24 = rate mod 2 ^ 32"
  by (rule read_le32_bytes) (simp_all add: header_simps)

lemma header_byte_rate: "read_le32 (wav_header nc rate n) 28 = (rate * nc * 2) mod 2 ^ 32"
  by (rule read_le32_bytes) (simp_all add: header_simps)

lemma header_block_align: "read_le16 (wav_header nc rate n) 32 = (nc * 2) mod 2 ^ 16"
  by (rule read_le16_bytes) (simp_all add: header_simps)

lemma header_bits: "read_le16 (wav_header nc rate n) 34 = 16"
  using read_le16_bytes [of "wav_header nc rate n" 34 16] by (simp add: header_simps)

lemma header_data_size: "read_le32 (wav_header nc rate n) 40 = n mod 2 ^ 32"
  by (rule read_le32_bytes) (simp_all add: header_simps)

lemma take4_drop:
  assumes "off + 4 \<le> length w"
  shows "take 4 (drop off w) = [w ! off, w ! (off + 1), w ! (off + 2), w ! (off + 3)]"
proof -
  have "drop off w = w ! off # w ! (off + 1) # w ! (off + 2) # w ! (off + 3) # drop (off + 4) w"
    using assms by (simp add: Cons_nth_drop_Suc numeral_eq_Suc)
  then show ?thesis by simp
qed

lemma take4:
  assumes "4 \<le> length w"
  shows "take 4 w = [w ! 0, w ! 1, w ! 2, w ! 3]"
  using assms take4_drop [of 0 w] by (simp add: numeral_2_eq_2)

lemma header_tags:
  "take 4 (wav_header nc rate n) = ascii ''RIFF''"
  "take 4 (drop 8 (wav_header nc rate n)) = ascii ''WAVE''"
  "take 4 (drop 12 (wav_header nc rate n)) = ascii ''fmt ''"
  "take 4 (drop 36 (wav_header nc rate n)) = ascii ''data''"
  by (simp_all add: take4 take4_drop length_wav_header ascii_def header_simps)


lemma read_le32_append:
  "off + 3 < length h \<Longrightarrow> read_le32 (h @ d) off = read_le32 h off"
  by (simp add: read_le32_def nth_append)

lemma read_le16_append:
  "off + 1 < length h \<Longrightarrow> read_le16 (h @ d) off = read_le16 h off"
  by (simp add: read_le16_def nth_append)

lemma length_wav:
  "length (blob_bytes (audioBufferToWav b)) = 44 + 2 * (length_frames b * numberOfChannels b)"
  by (simp add: audioBufferToWav_def Let_def length_wav_header length_int16_bytes length_interleave)

lemma wav_tags:
  "take 4 (blob_bytes (audioBufferToWav b)) = ascii ''RIFF''"
  "take 4 (drop 8 (blob_bytes (audioBufferToWav b))) = ascii ''WAVE''"
  "take 4 (drop 12 (blob_bytes (audioBufferToWav b))) = ascii ''fmt ''"
  "take 4 (drop 36 (blob_bytes (audioBufferToWav b))) = ascii ''data''"
  by (simp_all add: audioBufferToWav_def Let_def length_wav_header header_tags)

lemma wav_constants:
  "read_le32 (blob_bytes (audioBufferToWav b)) 16 = 16"
  "read_le16 (blob_bytes (audioBufferToWav b)) 20 = 1"
  "read_le16 (blob_bytes (audioBufferToWav b)) 34 = 16"
  by (simp_all add: audioBufferToWav_def Let_def length_wav_header read_le32_append read_le16_append
        header_fmt_size header_format header_bits)

lemma wav_format_fields:
  "read_le16 (blob_bytes (audioBufferToWav b)) 22 = numberOfChannels b mod 2 ^ 16"
  "read_le32 (blob_bytes (audioBufferToWav b)) 24 = sampleRate b mod 2 ^ 32"
  "read_le32 (blob_bytes (audioBufferToWav b)) 28 = (sampleRate b * numberOfChannels b * 2) mod 2 ^ 32"
  "read_le16 (blob_bytes (audioBufferToWav b)) 32 = (numberOfChannels b * 2) mod 2 ^ 16"
  by (simp_all only: audioBufferToWav_def Let_def blob.simps read_le32_append read_le16_append
        length_wav_header header_channels header_rate header_byte_rate header_block_align
        One_nat_def)

lemma wav_size_fields:
  "read_le32 (blob_bytes (audioBufferToWav b)) 4 = (length (blob_bytes (audioBufferToWav b)) - 8) mod 2 ^ 32"
  "read_le32 (blob_bytes (audioBufferToWav b)) 40 = (length (blob_bytes (audioBufferToWav b)) - 44) mod 2 ^ 32"
proof -
  let ?n = "2 * length (interleave b)"
  let ?h = "wav_header (numberOfChannels b) (sampleRate b) ?n"
  have w: "blob_bytes (audioBufferToWav b) = ?h @ int16_bytes (interleave b)"
    by (simp add: audioBufferToWav_def Let_def)
  have len: "length (blob_bytes (audioBufferToWav b)) = 44 + ?n"
    by (simp add: w length_wav_header length_int16_bytes)
  have "read_le32 (?h @ int16_bytes (interleave b)) 4 = (36 + ?n) mod 2 ^ 32"
    by (simp add: read_le32_append length_wav_header header_riff_size)
  then show "read_le32 (blob_bytes (audioBufferToWav b)) 4
      = (length (blob_bytes (audioBufferToWav b)) - 8) mod 2 ^ 32"
    unfolding len unfolding w by simp
  have "read_le32 (?h @ int16_bytes (interleave b)) 40 = ?n mod 2 ^ 32"
    by (simp add: read_le32_append length_wav_header header_data_size)
  then show "read_le32 (blob_bytes (audioBufferToWav b)) 40
      = (length (blob_bytes (audioBufferToWav b)) - 44) mod 2 ^ 32"
    unfolding len unfolding w by simp
qed

text \<open>
  Claim C2. For every \<open>AudioBuffer\<close> whose values the header can hold (fewer than
  \<open>2 ^ 15\<close> channels, a sample rate and a byte rate below \<open>2 ^ 32\<close>, a file shorter than
  \<open>2 ^ 32\<close> bytes, as for every buffer a browser builds) the output of \<open>audioBufferToWav\<close>
  is a 44-byte header followed by two bytes for each sample. Bytes 0 to 3 are "RIFF",
  8 to 11 "WAVE", 12 to 15 "fmt " and 36 to 39 "data". Read as little-endian integers,
  the format-chunk length is 16, the format tag 1, the bits per sample 16, and the
  channel count, the sample rate, the byte rate \<open>sampleRate * channels * 2\<close> and the
  block align \<open>channels * 2\<close> are those of the buffer; the RIFF size is the file length
  minus 8 and the data-chunk size is the file length minus 44, the number of bytes
  that follow the header.
\<close>

theorem audioBufferToWav_header:
  assumes "numberOfChannels b < 2 ^ 15" and "sampleRate b < 2 ^ 32"
    and "sampleRate b * numberOfChannels b * 2 < 2 ^ 32"
    and "44 + 2 * (length_frames b * numberOfChannels b) < 2 ^ 32"
  shows "(let w = blob_bytes (audioBufferToWav b); nc = numberOfChannels b; rate = sampleRate b in
      length w = 44 + 2 * (length_frames b * nc) \<and>
      take 4 w = ascii ''RIFF'' \<and> take 4 (drop 8 w) = ascii ''WAVE'' \<and>
      take 4 (drop 12 w) = ascii ''fmt '' \<and> take 4 (drop 36 w) = ascii ''data'' \<and>
      read_le32 w 16 = 16 \<and> read_le16 w 20 = 1 \<and> read_le16 w 34 = 16 \<and>
      read_le16 w 22 = nc \<and>
      read_le32 w 24 = rate \<and>
      read_le32 w 28 = rate * nc * 2 \<and>
      read_le16 w 32 = nc * 2 \<and>
      read_le32 w 4 = length w - 8 \<and>
      read_le32 w 40 = length w - 44)"
proof -
  let ?w = "blob_bytes (audioBufferToWav b)"
  have len: "length ?w < 2 ^ 32"
    using assms(4) by (simp only: length_wav)
  have fits: "numberOfChannels b < 2 ^ 16" "numberOfChannels b * 2 < 2 ^ 16"
    "length ?w - 8 < 2 ^ 32" "length ?w - 44 < 2 ^ 32"
    using assms(1) len by auto
  have "read_le16 ?w 22 = numberOfChannels b \<and> read_le32 ?w 24 = sampleRate b \<and>
      read_le32 ?w 28 = sampleRate b * numberOfChannels b * 2 \<and>
      read_le16 ?w 32 = numberOfChannels b * 2 \<and>
      read_le32 ?w 4 = length ?w - 8 \<and> read_le32 ?w 40 = length ?w - 44"
    using assms(2,3) fits
    by (simp only: wav_format_fields wav_size_fields mod_less simp_thms)
  then show ?thesis
    unfolding Let_def
    by (simp only: length_wav wav_tags wav_constants simp_thms)
qed

theorem audioBufferToWav_header_witness:
  "numberOfChannels \<lparr>sampleRate = 24000, length_frames = 2,
       channelData = [[Num (1/2), Num (- 3/2)], [Num (- 1/4), NaN]]\<rparr> = 2 \<and>
   length (blob_bytes (audioBufferToWav \<lparr>sampleRate = 24000, length_frames = 2,
       channelData = [[Num (1/2), Num (- 3/2)], [Num (- 1/4), NaN]]\<rparr>)) = 52 \<and>
   read_le16 (blob_bytes (audioBufferToWav \<lparr>sampleRate = 24000, length_frames = 2,
       channelData = [[Num (1/2), Num (- 3/2)], [Num (- 1/4), NaN]]\<rparr>)) 22 = 2 \<and>
   read_le32 (blob_bytes (audioBufferToWav \<lparr>sampleRate = 24000, length_frames = 2,
       channelData = [[Num (1/2), Num (- 3/2)], [Num (- 1/4), NaN]]\<rparr>)) 24 = 24000 \<and>
   read_le32 (blob_bytes (audioBufferToWav \<lparr>sampleRate = 24000, length_frames = 2,
       channelData = [[Num (1/2), Num (- 3/2)], [Num (- 1/4), NaN]]\<rparr>)) 28 = 96000 \<and>
   read_le16 (blob_bytes (audioBufferToWav \<lparr>sampleRate = 24000, length_frames = 2,
       channelData = [[Num (1/2), Num (- 3/2)], [Num (- 1/4), NaN]]\<rparr>)) 32 = 4 \<and>
   read_le32 (blob_bytes (audioBufferToWav \<lparr>sampleRate = 24000, length_frames = 2,
       channelData = [[Num (1/2), Num (- 3/2)], [Num (- 1/4), NaN]]\<rparr>)) 4 = 44 \<and>
   read_le32 (blob_bytes (audioBufferToWav \<lparr>sampleRate = 24000, length_frames = 2,
       channelData = [[Num (1/2), Num (- 3/2)], [Num (- 1/4), NaN]]\<rparr>)) 40 = 8"
proof -
  let ?b = "\<lparr>sampleRate = 24000, length_frames = 2,
       channelData = [[Num (1/2), Num (- 3/2)], [Num (- 1/4), NaN]]\<rparr>"
  have nc: "numberOfChannels ?b = 2"
    by (simp add: numberOfChannels_def)
  have "numberOfChannels ?b < 2 ^ 15" "sampleRate ?b < 2 ^ 32"
    "sampleRate ?b * numberOfChannels ?b * 2 < 2 ^ 32"
    "44 + 2 * (length_frames ?b * numberOfChannels ?b) < 2 ^ 32"
    unfolding nc by simp_all
  from audioBufferToWav_header [OF this]
  have "length (blob_bytes (audioBufferToWav ?b)) = 52 \<and>
      read_le16 (blob_bytes (audioBufferToWav ?b)) 22 = 2 \<and>
      read_le32 (blob_bytes (audioBufferToWav ?b)) 24 = 24000 \<and>
      read_le32 (blob_bytes (audioBufferToWav ?b)) 28 = 96000 \<and>
      read_le16 (blob_bytes (audioBufferToWav ?b)) 32 = 4 \<and>
      read_le32 (blob_bytes (audioBufferToWav ?b)) 4 = 44 \<and>
      read_le32 (blob_bytes (audioBufferToWav ?b)) 40 = 8"
    unfolding Let_def nc by simp
  with nc show ?thesis by simp
qed

section \<open>Encoding, then decoding\<close>

lemma quantization_error:
  assumes "- 1 \<le> s" "s \<le> 1"
  shows "\<bar>real_of_int (js_trunc (scale16 (clamp s))) / 32768 - s\<bar> < 2 / 32768"
    and "s < 0 \<Longrightarrow> \<bar>real_of_int (js_trunc (scale16 (clamp s))) / 32768 - s\<bar> < 1 / 32768"
proof -
  have c: "clamp s = s"
    using assms by (simp add: clamp_def)
  have neg: "\<bar>real_of_int (js_trunc (scale16 s)) / 32768 - s\<bar> < 1 / 32768" if "s < 0"
  proof -
    let ?x = "s * 32768"
    have t: "js_trunc (scale16 s) = \<lceil>?x\<rceil>"
      using that by (simp add: scale16_def js_trunc_def)
    have "?x \<le> real_of_int \<lceil>?x\<rceil>" "real_of_int \<lceil>?x\<rceil> < ?x + 1"
      by linarith+
    then show ?thesis
      unfolding t by (simp add: abs_less_iff field_simps)
  qed
  have nonneg: "\<bar>real_of_int (js_trunc (scale16 s)) / 32768 - s\<bar> < 2 / 32768" if "\<not> s < 0"
  proof -
    let ?x = "s * 32767"
    have t: "js_trunc (scale16 s) = \<lfloor>?x\<rfloor>"
      using that by (simp add: scale16_def js_trunc_def)
    have "real_of_int \<lfloor>?x\<rfloor> \<le> ?x" "?x < real_of_int \<lfloor>?x\<rfloor> + 1"
      by linarith+
    with that assms have "- 2 < real_of_int \<lfloor>?x\<rfloor> - s * 32768"
      "real_of_int \<lfloor>?x\<rfloor> - s * 32768 < 2"
      by linarith+
    then show ?thesis
      unfolding t by (simp add: abs_less_iff field_simps)
  qed
  show "\<bar>real_of_int (js_trunc (scale16 (clamp s))) / 32768 - s\<bar> < 2 / 32768"
    using neg nonneg unfolding c by (cases "s < 0") auto
  show "s < 0 \<Longrightarrow> \<bar>real_of_int (js_trunc (scale16 (clamp s))) / 32768 - s\<bar> < 1 / 32768"
    using neg unfolding c by simp
qed

lemma roundtrip_decode:
  assumes wf: "well_formed b"
    and ctx: "numberOfChannels b \<le> maxChannels ctx" "minSampleRate ctx \<le> sampleRate b"
      "sampleRate b \<le> maxSampleRate ctx"
    and frames: "length_frames b < 2 ^ 32"
  shows "decodeAudioData (drop 44 (blob_bytes (audioBufferToWav b))) ctx (sampleRate b) (numberOfChannels b)
         = Inr \<lparr>sampleRate = sampleRate b, length_frames = length_frames b,
                channelData =
                  map (\<lambda>ch. map (\<lambda>i. Num (real_of_int (sint (encode_sample (channelData b ! ch ! i))) / 32768))
                                [0..<length_frames b])
                      [0..<numberOfChannels b]\<rparr>"
proof -
  let ?nc = "numberOfChannels b"
  let ?F = "length_frames b"
  let ?data = "drop 44 (blob_bytes (audioBufferToWav b))"
  have pos: "0 < ?nc" "0 < ?F"
    using wf by (simp_all add: well_formed_def)
  have data: "?data = int16_bytes (interleave b)"
    by (simp add: audioBufferToWav_def Let_def length_wav_header)
  have len: "length ?data = 2 * (?F * ?nc)"
    by (simp add: data length_int16_bytes length_interleave)
  have F: "length ?data div 2 div ?nc = ?F"
    unfolding len using pos by simp
  have el: "int16_elements ?data = interleave b"
    by (simp add: data int16_elements_bytes)
  have ev: "even (length ?data)"
    unfolding len by simp
  have F0: "0 < length ?data div 2 div ?nc"
    unfolding F by (rule pos(2))
  have Fb: "length ?data div 2 div ?nc < 2 ^ 32"
    unfolding F by (rule frames)
  have dec: "decodeAudioData ?data ctx (sampleRate b) ?nc =
      Inr \<lparr>sampleRate = sampleRate b, length_frames = length ?data div 2 div ?nc,
           channelData =
             map (\<lambda>ch. map (\<lambda>i. Num (real_of_int (sint (int16_elements ?data ! (i * ?nc + ch))) / 32768))
                           [0..<length ?data div 2 div ?nc])
                 [0..<?nc]\<rparr>"
    by (rule decodeAudioData_even [OF ev pos(1) ctx F0 Fb])
  have "map (\<lambda>ch. map (\<lambda>i. Num (real_of_int (sint (interleave b ! (i * ?nc + ch))) / 32768)) [0..<?F]) [0..<?nc]
      = map (\<lambda>ch. map (\<lambda>i. Num (real_of_int (sint (encode_sample (channelData b ! ch ! i))) / 32768)) [0..<?F]) [0..<?nc]"
  proof (rule map_cong [OF refl], rule map_cong [OF refl])
    fix ch i
    assume "ch \<in> set [0..<?nc]" "i \<in> set [0..<?F]"
    then have "i < ?F" "ch < ?nc" by simp_all
    then have "interleave b ! (i * ?nc + ch) = encode_sample (channelData b ! ch ! i)"
      using wf by (simp add: interleave_nth channel_sample_wf)
    then show "Num (real_of_int (sint (interleave b ! (i * ?nc + ch))) / 32768)
        = Num (real_of_int (sint (encode_sample (channelData b ! ch ! i))) / 32768)"
      by (simp only:)
  qed
  with dec show ?thesis
    unfolding F el by (simp only:)
qed


lemma in_unit_range_nth:
  assumes "in_unit_range b" "ch < numberOfChannels b" "i < length (channelData b ! ch)"
  shows "\<exists>s. channelData b ! ch ! i = Num s \<and> - 1 \<le> s \<and> s \<le> 1"
proof -
  have "case channelData b ! ch ! i of Num s \<Rightarrow> - 1 \<le> s \<and> s \<le> 1 | _ \<Rightarrow> False"
    using assms by (simp add: in_unit_range_def numberOfChannels_def list_all_length)
  then show ?thesis
    by (cases "channelData b ! ch ! i") simp_all
qed

text \<open>
  Claim C4, as amended. For every \<open>AudioBuffer\<close> with samples in \<open>[-1, 1]\<close> (of a channel
  count and a sample rate the context supports, with fewer than \<open>2 ^ 32\<close> frames),
  encoding it with \<open>audioBufferToWav\<close> and decoding the bytes after the 44-byte header
  with \<open>decodeAudioData\<close> returns a buffer of the same channel count, length and rate,
  whose every sample differs from the original one by less than \<open>2 / 32768\<close>, and by
  less than \<open>1 / 32768\<close> when the original sample is negative. (Non-negative samples
  are scaled by 32767 and decoded by 32768, which adds up to \<open>s / 32768\<close> to the
  truncation error.)
\<close>

theorem wav_round_trip:
  assumes wf: "well_formed b" and range: "in_unit_range b"
    and ctx: "numberOfChannels b \<le> maxChannels ctx" "minSampleRate ctx \<le> sampleRate b"
      "sampleRate b \<le> maxSampleRate ctx"
    and frames: "length_frames b < 2 ^ 32"
  shows "\<exists>b'. decodeAudioData (drop 44 (blob_bytes (audioBufferToWav b))) ctx
                 (sampleRate b) (numberOfChannels b) = Inr b' \<and>
              numberOfChannels b' = numberOfChannels b \<and>
              length_frames b' = length_frames b \<and> sampleRate b' = sampleRate b \<and>
              (\<forall>ch<numberOfChannels b. \<forall>i<length_frames b.
                 (case (channelData b ! ch ! i, channelData b' ! ch ! i) of
                    (Num s, Num s') \<Rightarrow> \<bar>s' - s\<bar> < 2 / 32768 \<and> (s < 0 \<longrightarrow> \<bar>s' - s\<bar> < 1 / 32768)
                  | _ \<Rightarrow> False))"
proof -
  let ?b' = "\<lparr>sampleRate = sampleRate b, length_frames = length_frames b,
                channelData =
                  map (\<lambda>ch. map (\<lambda>i. Num (real_of_int (sint (encode_sample (channelData b ! ch ! i))) / 32768))
                                [0..<length_frames b])
                      [0..<numberOfChannels b]\<rparr>"
  have dec: "decodeAudioData (drop 44 (blob_bytes (audioBufferToWav b))) ctx
      (sampleRate b) (numberOfChannels b) = Inr ?b'"
    using wf ctx frames by (rule roundtrip_decode)
  have close: "case (channelData b ! ch ! i, channelData ?b' ! ch ! i) of
        (Num s, Num s') \<Rightarrow> \<bar>s' - s\<bar> < 2 / 32768 \<and> (s < 0 \<longrightarrow> \<bar>s' - s\<bar> < 1 / 32768)
      | _ \<Rightarrow> False"
    if "ch < numberOfChannels b" "i < length_frames b" for ch i
  proof -
    have "length (channelData b ! ch) = length_frames b"
      using wf that by (simp add: well_formed_def numberOfChannels_def list_all_length)
    with range that obtain s where s: "channelData b ! ch ! i = Num s" "- 1 \<le> s" "s \<le> 1"
      using in_unit_range_nth [of b ch i] by auto
    have "(signed (encode_sample (Num s)) :: real) = real_of_int (js_trunc (scale16 (clamp s)))"
      by (metis of_int_sint encode_sample_Num)
    then have "channelData ?b' ! ch ! i = Num (real_of_int (js_trunc (scale16 (clamp s))) / 32768)"
      using that by (simp add: s(1))
    then show ?thesis
      using quantization_error [OF s(2,3)] by (simp add: s(1))
  qed
  show ?thesis
    using dec close by (intro exI [of _ ?b']) (simp add: numberOfChannels_def)
qed

theorem wav_round_trip_witness:
  "well_formed \<lparr>sampleRate = 24000, length_frames = 1, channelData = [[Num (1/2)]]\<rparr> \<and>
   in_unit_range \<lparr>sampleRate = 24000, length_frames = 1, channelData = [[Num (1/2)]]\<rparr> \<and>
   (\<exists>b'. decodeAudioData
           (drop 44 (blob_bytes (audioBufferToWav
              \<lparr>sampleRate = 24000, length_frames = 1, channelData = [[Num (1/2)]]\<rparr>)))
           minimal_context 24000 1 = Inr b' \<and>
         length_frames b' = 1 \<and>
         (case channelData b' ! 0 ! 0 of Num s' \<Rightarrow> \<bar>s' - 1/2\<bar> < 2 / 32768 | _ \<Rightarrow> False))"
proof -
  let ?b = "\<lparr>sampleRate = 24000, length_frames = 1, channelData = [[Num (1/2)]]\<rparr>"
  have nc: "numberOfChannels ?b = 1"
    by (simp add: numberOfChannels_def)
  have wf: "well_formed ?b"
    by (simp add: well_formed_def numberOfChannels_def)
  have range: "in_unit_range ?b"
    by (simp add: in_unit_range_def)
  have "\<exists>b'. decodeAudioData (drop 44 (blob_bytes (audioBufferToWav ?b))) minimal_context
                 (sampleRate ?b) (numberOfChannels ?b) = Inr b' \<and>
              numberOfChannels b' = numberOfChannels ?b \<and>
              length_frames b' = length_frames ?b \<and> sampleRate b' = sampleRate ?b \<and>
              (\<forall>ch<numberOfChannels ?b. \<forall>i<length_frames ?b.
                 (case (channelData ?b ! ch ! i, channelData b' ! ch ! i) of
                    (Num s, Num s') \<Rightarrow> \<bar>s' - s\<bar> < 2 / 32768 \<and> (s < 0 \<longrightarrow> \<bar>s' - s\<bar> < 1 / 32768)
                  | _ \<Rightarrow> False))"
    by (rule wav_round_trip [OF wf range]) (simp_all add: numberOfChannels_def minimal_context_def)
  then obtain b' where b':
    "decodeAudioData (drop 44 (blob_bytes (audioBufferToWav ?b))) minimal_context 24000 1 = Inr b'"
    "length_frames b' = 1"
    "case (Num (1/2), channelData b' ! 0 ! 0) of
        (Num s, Num s') \<Rightarrow> \<bar>s' - s\<bar> < 2 / 32768 \<and> (s < 0 \<longrightarrow> \<bar>s' - s\<bar> < 1 / 32768)
      | _ \<Rightarrow> False"
    unfolding nc by auto
  from b'(3) have "case channelData b' ! 0 ! 0 of Num s' \<Rightarrow> \<bar>s' - 1/2\<bar> < 2 / 32768 | _ \<Rightarrow> False"
    by (cases "channelData b' ! 0 ! 0") simp_all
  with wf range b'(1,2) show ?thesis by blast
qed

text \<open>
  Claim C4 as stated fails: the sample \<open>65535 / 65536\<close> (a value a \<open>Float32Array\<close>
  holds exactly) is encoded as 32766 and decoded as \<open>32766 / 32768\<close>, which is
  \<open>3 / 65536\<close> away, more than \<open>1 / 32768\<close>.
\<close>

theorem wav_round_trip_counterexample:
  "well_formed \<lparr>sampleRate = 24000, length_frames = 1, channelData = [[Num (65535/65536)]]\<rparr> \<and>
   in_unit_range \<lparr>sampleRate = 24000, length_frames = 1, channelData = [[Num (65535/65536)]]\<rparr> \<and>
   decodeAudioData
     (drop 44 (blob_bytes (audioBufferToWav
        \<lparr>sampleRate = 24000, length_frames = 1, channelData = [[Num (65535/65536)]]\<rparr>)))
     minimal_context 24000 1
     = Inr \<lparr>sampleRate = 24000, length_frames = 1, channelData = [[Num (32766/32768)]]\<rparr> \<and>
   \<not> \<bar>32766/32768 - 65535/65536\<bar> \<le> (1/32768 :: real)"
proof -
  let ?b = "\<lparr>sampleRate = 24000, length_frames = 1, channelData = [[Num (65535/65536)]]\<rparr>"
  have nc: "numberOfChannels ?b = 1"
    by (simp add: numberOfChannels_def)
  have wf: "well_formed ?b"
    by (simp add: well_formed_def numberOfChannels_def)
  have range: "in_unit_range ?b"
    by (simp add: in_unit_range_def)
  have enc: "sint (encode_sample (Num (65535/65536))) = 32766"
    by (simp add: encode_sample_Num clamp_def scale16_def js_trunc_def)
  have "decodeAudioData (drop 44 (blob_bytes (audioBufferToWav ?b))) minimal_context
          (sampleRate ?b) (numberOfChannels ?b)
      = Inr \<lparr>sampleRate = sampleRate ?b, length_frames = length_frames ?b,
             channelData =
               map (\<lambda>ch. map (\<lambda>i. Num (real_of_int (sint (encode_sample (channelData ?b ! ch ! i))) / 32768))
                             [0..<length_frames ?b])
                   [0..<numberOfChannels ?b]\<rparr>"
    by (rule roundtrip_decode [OF wf]) (simp_all add: numberOfChannels_def minimal_context_def)
  then have "decodeAudioData (drop 44 (blob_bytes (audioBufferToWav ?b))) minimal_context 24000 1
      = Inr \<lparr>sampleRate = 24000, length_frames = 1,
             channelData = [[Num (real_of_int (sint (encode_sample (Num (65535/65536)))) / 32768)]]\<rparr>"
    unfolding nc by simp
  then have "decodeAudioData (drop 44 (blob_bytes (audioBufferToWav ?b))) minimal_context 24000 1
      = Inr \<lparr>sampleRate = 24000, length_frames = 1, channelData = [[Num (32766/32768)]]\<rparr>"
    unfolding enc by simp
  with wf range show ?thesis by simp
qed

section \<open>Properties of the Base64 decoder\<close>

lemma unat_byte_less': "unat (w :: byte) < 256"
proof -
  have "unat w < 2 ^ LENGTH(8)" by (rule unsigned_less)
  then show ?thesis by simp
qed

lemma code_unit_eq_iff: "(c :: code_unit) = numeral k \<longleftrightarrow> unat c = unat (numeral k :: code_unit)"
  by (simp add: word_unat_eq_iff)

lemma b64_value_unat:
  "b64_value c =
     (if 65 \<le> unat c \<and> unat c \<le> 90 then Some (unat c - 65)
      else if 97 \<le> unat c \<and> unat c \<le> 122 then Some (unat c - 97 + 26)
      else if 48 \<le> unat c \<and> unat c \<le> 57 then Some (unat c - 48 + 52)
      else if unat c = 43 then Some 62
      else if unat c = 47 then Some 63
      else None)"
  unfolding b64_value_def word_le_nat_alt code_unit_eq_iff by simp

lemma unat_b64_char:
  "n < 64 \<Longrightarrow> unat (b64_char n) =
     (if n < 26 then n + 65 else if n < 52 then n - 26 + 97 else if n < 62 then n - 52 + 48
      else if n = 62 then 43 else 47)"
proof -
  assume n: "n < 64"
  have u: "unat (word_of_nat m :: code_unit) = m" if "m < 65536" for m
    using that by (simp add: unat_of_nat)
  have a: "unat (word_of_nat (n + 65) :: code_unit) = n + 65"
    by (rule u) (use n in simp)
  have b: "unat (word_of_nat (n - 26 + 97) :: code_unit) = n - 26 + 97"
    by (rule u) (use n in simp)
  have c: "unat (word_of_nat (n - 52 + 48) :: code_unit) = n - 52 + 48"
    by (rule u) (use n in simp)
  have d: "unat (43 :: code_unit) = 43" "unat (47 :: code_unit) = 47"
    by simp_all
  show ?thesis
    unfolding b64_char_def by (simp only: a b c d if_distrib [of unat] cong: if_cong)
qed

lemma b64_value_char: "n < 64 \<Longrightarrow> b64_value (b64_char n) = Some n"
  unfolding b64_value_unat by (auto simp: unat_b64_char)

lemma ascii_whitespace_unat:
  "ascii_whitespace c \<longleftrightarrow> unat c = 9 \<or> unat c = 10 \<or> unat c = 12 \<or> unat c = 13 \<or> unat c = 32"
  unfolding ascii_whitespace_def code_unit_eq_iff by simp

lemma b64_char_not_ws: "n < 64 \<Longrightarrow> \<not> ascii_whitespace (b64_char n)"
  unfolding ascii_whitespace_unat by (auto simp: unat_b64_char)

lemma b64_char_not_pad: "n < 64 \<Longrightarrow> b64_char n \<noteq> 0x3D"
  unfolding code_unit_eq_iff by (auto simp: unat_b64_char)

lemma pad_not_ws: "\<not> ascii_whitespace 0x3D"
  by (simp add: ascii_whitespace_def)

lemma pad_no_value: "b64_value 0x3D = None"
  by (simp add: b64_value_def)

lemma ws_no_value: "ascii_whitespace c \<Longrightarrow> b64_value c = None"
  unfolding ascii_whitespace_unat b64_value_unat by auto

lemma recompose24:
  "((n div 262144 * 64 + n div 4096 mod 64) * 64 + n div 64 mod 64) * 64 + n mod 64 = (n::nat)"
proof -
  define A B C where "A = n div 64" and "B = A div 64" and "C = B div 64"
  define r0 r1 r2 where "r0 = n mod 64" and "r1 = A mod 64" and "r2 = B mod 64"
  have a: "n div 4096 = B" "n div 262144 = C"
    by (simp_all add: A_def B_def C_def div_mult2_eq [symmetric])
  have "n = r0 + 64 * A" "A = r1 + 64 * B" "B = r2 + 64 * C"
    by (simp_all add: A_def B_def C_def r0_def r1_def r2_def)
  then have "((C * 64 + r2) * 64 + r1) * 64 + r0 = n"
    by arith
  then show ?thesis
    unfolding a by (simp only: A_def [symmetric] r0_def r1_def r2_def)
qed

lemma recompose18:
  "(n div 4096 * 64 + n div 64 mod 64) * 64 + n mod 64 = (n::nat)"
proof -
  define A B where "A = n div 64" and "B = A div 64"
  define r0 r1 where "r0 = n mod 64" and "r1 = A mod 64"
  have a: "n div 4096 = B"
    by (simp add: A_def B_def div_mult2_eq [symmetric])
  have "n = r0 + 64 * A" "A = r1 + 64 * B"
    by (simp_all add: A_def B_def r0_def r1_def)
  then have "(B * 64 + r1) * 64 + r0 = n"
    by arith
  then show ?thesis
    unfolding a by (simp only: A_def [symmetric] r0_def r1_def)
qed

lemma recompose12: "n div 64 * 64 + n mod 64 = (n::nat)"
  by simp

lemma bytes24:
  assumes "y < 256" "z < 256"
  shows "((x * 256 + y) * 256 + z) div 65536 = (x::nat)"
    and "((x * 256 + y) * 256 + z) div 256 mod 256 = y"
    and "((x * 256 + y) * 256 + z) mod 256 = z"
proof -
  have d: "((x * 256 + y) * 256 + z) div 256 = x * 256 + y"
    using assms(2) by simp
  show "((x * 256 + y) * 256 + z) mod 256 = z"
    using assms(2) by (simp only: mod_mult_self3 mod_less)
  show "((x * 256 + y) * 256 + z) div 256 mod 256 = y"
    unfolding d using assms(1) by simp
  have "((x * 256 + y) * 256 + z) div 65536 = ((x * 256 + y) * 256 + z) div 256 div 256"
    by (simp add: div_mult2_eq [symmetric])
  also have "\<dots> = x"
    unfolding d using assms(1) by simp
  finally show "((x * 256 + y) * 256 + z) div 65536 = x" .
qed

lemma bytes16:
  assumes "y < 256"
  shows "(x * 256 + y) * 4 div 4 div 256 = (x::nat)" and "(x * 256 + y) * 4 div 4 mod 256 = y"
  using assms by simp_all

lemma byte_of_unat: "word_of_nat (unat w) = (w :: byte)"
  by simp

lemma decode_group3:
  "decode_sextets (b64_sextets (x # y # z # rest)) = x # y # z # decode_sextets (b64_sextets rest)"
proof -
  let ?n = "(unat x * 256 + unat y) * 256 + unat z"
  have b: "unat y < 256" "unat z < 256"
    by (rule unat_byte_less')+
  show ?thesis
    by (simp only: b64_sextets.simps decode_sextets.simps Let_def recompose24
          bytes24 [OF b] byte_of_unat)
qed

lemma decode_group2: "decode_sextets (b64_sextets [x, y]) = [x, y]"
proof -
  have b: "unat y < 256"
    by (rule unat_byte_less')
  show ?thesis
    by (simp only: b64_sextets.simps decode_sextets.simps Let_def recompose18
          bytes16 [OF b] byte_of_unat)
qed

lemma decode_group1: "decode_sextets (b64_sextets [x]) = [x]"
proof -
  have "unat x * 16 div 16 = unat x" by simp
  then show ?thesis
    by (simp only: b64_sextets.simps decode_sextets.simps Let_def recompose12
          byte_of_unat)
qed

lemma decode_sextets_inverse: "decode_sextets (b64_sextets bs) = bs"
proof (induction bs rule: b64_sextets.induct)
  case (1 x y z rest)
  then show ?case by (simp only: decode_group3)
next
  case (2 x y)
  show ?case by (rule decode_group2)
next
  case (3 x)
  show ?case by (rule decode_group1)
next
  case 4
  show ?case by simp
qed

lemma sextets_less: "n \<in> set (b64_sextets bs) \<Longrightarrow> n < 64"
proof (induction bs arbitrary: n rule: b64_sextets.induct)
  case (1 x y z rest)
  have "unat x < 256" "unat y < 256" "unat z < 256"
    by (rule unat_byte_less')+
  then have "(unat x * 256 + unat y) * 256 + unat z < 16777216"
    by simp
  then have "((unat x * 256 + unat y) * 256 + unat z) div 262144 < 64"
    by simp
  with 1 show ?case
    by (auto simp: Let_def)
next
  case (2 x y)
  have "unat x < 256" "unat y < 256"
    by (rule unat_byte_less')+
  then have "(unat x * 256 + unat y) * 4 div 4096 < 64"
    by simp
  with 2 show ?case
    by (auto simp: Let_def)
next
  case (3 x)
  have "unat x < 256"
    by (rule unat_byte_less')
  then have "unat x * 16 div 64 < 64"
    by simp
  with 3 show ?case
    by (auto simp: Let_def)
next
  case 4
  then show ?case by simp
qed

lemma pad_cases:
  fixes n :: nat
  obtains q where "n = 3 * q" | q where "n = 3 * q + 1" | q where "n = 3 * q + 2"
proof -
  have "n mod 3 = 0 \<or> n mod 3 = 1 \<or> n mod 3 = 2" by linarith
  then show thesis
  proof (elim disjE)
    assume "n mod 3 = 0"
    then have "n = 3 * (n div 3)" using div_mult_mod_eq [of n 3] by simp
    then show thesis by (rule that(1))
  next
    assume "n mod 3 = 1"
    then have "n = 3 * (n div 3) + 1" using div_mult_mod_eq [of n 3] by simp
    then show thesis by (rule that(2))
  next
    assume "n mod 3 = 2"
    then have "n = 3 * (n div 3) + 2" using div_mult_mod_eq [of n 3] by simp
    then show thesis by (rule that(3))
  qed
qed

lemma encoded_length_arith: "(4 * n + 2) div 3 + (3 - n mod 3) mod 3 = 4 * ((n + 2) div 3)" for n :: nat
proof (cases n rule: pad_cases)
  case (1 q)
  have "(4 * (3 * q) + 2) div 3 = 4 * q" "(3 * q + 2) div 3 = q" "(3 * q) mod 3 = 0" by simp_all
  then show ?thesis by (simp only: 1) simp
next
  case (2 q)
  have "(4 * (3 * q + 1) + 2) div 3 = 4 * q + 2" "(3 * q + 1 + 2) div 3 = q + 1"
    "(3 * q + 1) mod 3 = 1" by simp_all
  then show ?thesis by (simp only: 2) simp
next
  case (3 q)
  have "(3 * q + 2) mod 3 = 2 mod 3" by (rule mod_mult_self4)
  then have "(3 * q + 2) mod 3 = 2" by simp
  moreover have "(4 * (3 * q + 2) + 2) div 3 = 4 * q + 3" "(3 * q + 2 + 2) div 3 = q + 1"
    by simp_all
  ultimately show ?thesis by (simp only: 3) simp
qed

lemma decoded_length_arith: "n = 4 * ((n + 2) div 3) * 3 div 4 - (3 - n mod 3) mod 3" for n :: nat
proof (cases n rule: pad_cases)
  case (1 q)
  have "(3 * q + 2) div 3 = q" "(3 * q) mod 3 = 0" "4 * q * 3 div 4 = 3 * q" by simp_all
  then show ?thesis by (simp only: 1) simp
next
  case (2 q)
  have "(3 * q + 1 + 2) div 3 = q + 1" "(3 * q + 1) mod 3 = 1" "4 * (q + 1) * 3 div 4 = 3 * (q + 1)"
    by simp_all
  then show ?thesis by (simp only: 2) simp
next
  case (3 q)
  have "(3 * q + 2) mod 3 = 2 mod 3" by (rule mod_mult_self4)
  then have "(3 * q + 2) mod 3 = 2" by simp
  moreover have "(3 * q + 2 + 2) div 3 = q + 1" "4 * (q + 1) * 3 div 4 = 3 * (q + 1)"
    by simp_all
  ultimately show ?thesis by (simp only: 3) simp
qed

lemma length_sextets: "length (b64_sextets bs) = (4 * length bs + 2) div 3"
  by (induction bs rule: b64_sextets.induct) (simp_all add: Let_def)

lemma length_b64_encode: "length (b64_encode bs) = 4 * ((length bs + 2) div 3)"
proof -
  have "length (b64_encode bs) = (4 * length bs + 2) div 3 + (3 - length bs mod 3) mod 3"
    by (simp only: b64_encode_def length_append length_map length_replicate length_sextets
          b64_padding_def)
  then show ?thesis
    by (simp only: encoded_length_arith)
qed

lemma decoded_length:
  "length bs = length (b64_encode bs) * 3 div 4 - b64_padding (length bs)"
  unfolding length_b64_encode b64_padding_def by (rule decoded_length_arith)

lemma body_chars:
  assumes "c \<in> set (map b64_char (b64_sextets bs))"
  shows "\<not> ascii_whitespace c" "c \<noteq> 0x3D" "b64_value c \<noteq> None"
proof -
  from assms obtain n where n: "n \<in> set (b64_sextets bs)" "c = b64_char n"
    by auto
  then have "n < 64" by (simp add: sextets_less)
  then show "\<not> ascii_whitespace c" "c \<noteq> 0x3D" "b64_value c \<noteq> None"
    unfolding n(2) by (simp_all add: b64_char_not_ws b64_char_not_pad b64_value_char)
qed

lemma filter_b64_encode:
  "filter (\<lambda>c. \<not> ascii_whitespace c) (b64_encode bs) = b64_encode bs"
proof -
  have "\<not> ascii_whitespace c" if "c \<in> set (b64_encode bs)" for c
    using that body_chars(1) [of c bs] pad_not_ws
    by (auto simp: b64_encode_def)
  then show ?thesis
    by (simp add: filter_id_conv)
qed

lemma body_values:
  "map (\<lambda>c. the (b64_value c)) (map b64_char (b64_sextets bs)) = b64_sextets bs"
proof -
  have "the (b64_value (b64_char n)) = n" if "n \<in> set (b64_sextets bs)" for n
    using that by (simp add: sextets_less b64_value_char)
  then show ?thesis
    by (simp add: map_idI)
qed

lemma byte_ucast_code_unit: "ucast (ucast (b :: byte) :: code_unit) = b"
  by (rule ucast_up_ucast_id) (simp add: is_up)

lemma copy_loop:
  "fold (\<lambda>i bytes. typed_set bytes i (f i)) [0..<n] (replicate n z) = map f [0..<n]"
proof (rule nth_equalityI)
  show "length (fold (\<lambda>i bytes. typed_set bytes i (f i)) [0..<n] (replicate n z)) = length (map f [0..<n])"
    by simp
next
  fix j
  assume "j < length (fold (\<lambda>i bytes. typed_set bytes i (f i)) [0..<n] (replicate n z))"
  then have "j < n" by simp
  then show "fold (\<lambda>i bytes. typed_set bytes i (f i)) [0..<n] (replicate n z) ! j = map f [0..<n] ! j"
    by (simp add: fill_fold_nth)
qed

lemma padding_values:
  "b64_padding (3 * q) = 0" "b64_padding (3 * q + 1) = 2" "b64_padding (3 * q + 2) = 1"
proof -
  have "(3 * q + 2) mod 3 = 2 mod 3" by (rule mod_mult_self4)
  then show "b64_padding (3 * q + 2) = 1" by (simp add: b64_padding_def)
  have "(3 * q + 1) mod 3 = 1 mod 3" by (rule mod_mult_self4)
  then show "b64_padding (3 * q + 1) = 2" by (simp add: b64_padding_def)
  show "b64_padding (3 * q) = 0" by (simp add: b64_padding_def)
qed

lemma sextets_length_values:
  "length bs = 3 * q \<Longrightarrow> length (b64_sextets bs) = 4 * q"
  "length bs = 3 * q + 1 \<Longrightarrow> length (b64_sextets bs) = 4 * q + 2"
  "length bs = 3 * q + 2 \<Longrightarrow> length (b64_sextets bs) = 4 * q + 3"
  by (simp_all add: length_sextets)

lemma last_body_not_pad:
  assumes "b64_sextets bs \<noteq> []"
  shows "last (map b64_char (b64_sextets bs)) \<noteq> 0x3D"
proof -
  have "last (map b64_char (b64_sextets bs)) \<in> set (map b64_char (b64_sextets bs))"
    using assms by (intro last_in_set) simp
  then show ?thesis by (rule body_chars(2))
qed

lemma strip_padding_encode:
  "strip_padding (b64_encode bs) = map b64_char (b64_sextets bs)"
proof -
  let ?body = "map b64_char (b64_sextets bs)"
  have m4: "length (b64_encode bs) mod 4 = 0"
    by (simp add: length_b64_encode)
  show ?thesis
  proof (cases "length bs" rule: pad_cases)
    case (1 q)
    have enc: "b64_encode bs = ?body"
      unfolding b64_encode_def 1 padding_values by simp
    show ?thesis
    proof (cases "b64_sextets bs = []")
      case True
      then show ?thesis by (simp add: enc strip_padding_def)
    next
      case False
      then have "last ?body \<noteq> 0x3D" by (rule last_body_not_pad)
      then show ?thesis
        unfolding enc by (simp add: strip_padding_def)
    qed
  next
    case (2 q)
    have enc: "b64_encode bs = ?body @ [0x3D, 0x3D]"
      unfolding b64_encode_def 2 padding_values by (simp add: numeral_2_eq_2)
    show ?thesis
      using m4 unfolding enc by (simp add: strip_padding_def butlast_append)
  next
    case (3 q)
    have enc: "b64_encode bs = ?body @ [0x3D]"
      unfolding b64_encode_def 3 padding_values by simp
    have "length (b64_sextets bs) = 4 * q + 3"
      using 3 by (rule sextets_length_values)
    then have "b64_sextets bs \<noteq> []" by auto
    then have "last ?body \<noteq> 0x3D" by (rule last_body_not_pad)
    then show ?thesis
      using m4 \<open>b64_sextets bs \<noteq> []\<close> unfolding enc
      by (simp add: strip_padding_def butlast_append)
  qed
qed

lemma sextets_length_mod4: "length (b64_sextets bs) mod 4 \<noteq> 1"
proof (cases "length bs" rule: pad_cases)
  case (1 q)
  then have "length (b64_sextets bs) = 4 * q" by (rule sextets_length_values)
  then show ?thesis by simp
next
  case (2 q)
  then have "length (b64_sextets bs) = 4 * q + 2" by (rule sextets_length_values)
  then have "length (b64_sextets bs) mod 4 = 2 mod 4" by (simp only: mod_mult_self4)
  then show ?thesis by simp
next
  case (3 q)
  then have "length (b64_sextets bs) = 4 * q + 3" by (rule sextets_length_values)
  then have "length (b64_sextets bs) mod 4 = 3 mod 4" by (simp only: mod_mult_self4)
  then show ?thesis by simp
qed

lemma atob_encode: "atob (b64_encode bs) = Inr (map ucast bs)"
proof -
  have "list_all (\<lambda>c. b64_value c \<noteq> None) (map b64_char (b64_sextets bs))"
    unfolding list_all_iff using body_chars(3) by blast
  then show ?thesis
    unfolding atob_def
    by (simp only: filter_b64_encode strip_padding_encode Let_def body_values decode_sextets_inverse)
       (use sextets_length_mod4 [of bs] in simp)
qed

lemma decodeBase64_encode: "decodeBase64 (b64_encode bs) = Inr bs"
proof -
  have "map (\<lambda>i. ucast (map (ucast :: byte \<Rightarrow> code_unit) bs ! i) :: byte)
      [0..<length (map (ucast :: byte \<Rightarrow> code_unit) bs)] = bs"
    by (rule nth_equalityI) (simp_all add: byte_ucast_code_unit)
  then show ?thesis
    unfolding decodeBase64_def
    by (simp only: atob_encode sum.case Let_def copy_loop)
qed

lemma b64_alphabet_chars: "b64_alphabet = map b64_char [0..<64]"
  by (simp add: b64_alphabet_def b64_char_def upt_rec)

lemma b64_value_Some:
  assumes "b64_value c = Some n"
  shows "n < 64" and "c = b64_char n"
proof -
  have "n < 64 \<and> unat c = unat (b64_char n)"
    using assms unfolding b64_value_unat
    by (auto simp: unat_b64_char split: if_splits)
  then show "n < 64" and "c = b64_char n"
    by (simp_all add: word_unat_eq_iff)
qed

lemma outside_alphabet: "c \<notin> set b64_alphabet \<Longrightarrow> b64_value c = None"
proof (rule ccontr)
  assume out: "c \<notin> set b64_alphabet" and "b64_value c \<noteq> None"
  then obtain n where "b64_value c = Some n" by auto
  then have "n < 64" "c = b64_char n" by (rule b64_value_Some)+
  then have "c \<in> set (map b64_char [0..<64])" by simp
  moreover have "c \<notin> set (map b64_char [0..<64])"
    using out unfolding b64_alphabet_chars .
  ultimately show False by contradiction
qed

lemma set_strip_padding:
  assumes "c \<in> set data" "c \<noteq> 0x3D"
  shows "c \<in> set (strip_padding data)"
proof -
  have drop_last: "c \<in> set (butlast xs)" if "c \<in> set xs" "xs \<noteq> []" "last xs = 0x3D" for xs
  proof -
    have "xs = butlast xs @ [last xs]" using that(2) by simp
    then have "set xs = set (butlast xs) \<union> {last xs}"
      by (metis list.set(1) list.simps(15) set_append Un_insert_right sup_bot.right_neutral)
    with that(1,3) assms(2) show ?thesis by auto
  qed
  show ?thesis
  proof (cases "length data mod 4 = 0 \<and> data \<noteq> [] \<and> last data = 0x3D")
    case False
    then show ?thesis
      using assms(1) by (auto simp: strip_padding_def)
  next
    case True
    then have one: "c \<in> set (butlast data)"
      using assms(1) by (intro drop_last [of data]) simp_all
    show ?thesis
    proof (cases "2 \<le> length data \<and> last (butlast data) = 0x3D")
      case False
      with True one show ?thesis by (auto simp: strip_padding_def)
    next
      case two: True
      then have "butlast data \<noteq> []" by (cases data) auto
      with one two have "c \<in> set (butlast (butlast data))"
        by (intro drop_last [of "butlast data"]) simp_all
      with True two show ?thesis by (simp add: strip_padding_def)
    qed
  qed
qed

lemma decodeBase64_invalid:
  assumes "c \<in> set s" "c \<notin> set b64_alphabet" "c \<noteq> 0x3D" "\<not> ascii_whitespace c"
  shows "decodeBase64 s = Inl InvalidCharacterError"
proof -
  let ?data = "strip_padding (filter (\<lambda>c. \<not> ascii_whitespace c) s)"
  have "c \<in> set (filter (\<lambda>c. \<not> ascii_whitespace c) s)"
    using assms(1,4) by simp
  then have "c \<in> set ?data"
    using assms(3) by (rule set_strip_padding)
  moreover have "b64_value c = None"
    using assms(2) by (rule outside_alphabet)
  ultimately have "\<not> list_all (\<lambda>c. b64_value c \<noteq> None) ?data"
    unfolding list_all_iff by blast
  then have "atob s = Inl InvalidCharacterError"
    by (simp add: atob_def Let_def)
  then show ?thesis
    by (simp add: decodeBase64_def)
qed

text \<open>
  Claim C6, as amended. \<open>decodeBase64\<close> is a function of its input alone. On valid
  Base64, the RFC 4648 encoding of a byte sequence, it returns exactly that byte
  sequence, whose length is \<open>\<lfloor>len(input) * 3 / 4\<rfloor>\<close> minus the number of padding
  characters. It fails (with the \<open>InvalidCharacterError\<close> of \<open>atob\<close>) when the input
  contains a character that is outside the Base64 alphabet and is neither the padding
  character \<open>=\<close> nor ASCII whitespace; ASCII whitespace is skipped by \<open>atob\<close> and is no
  error.
\<close>

theorem decodeBase64_contract:
  "decodeBase64 (b64_encode bs) = Inr bs \<and>
   length bs = length (b64_encode bs) * 3 div 4 - b64_padding (length bs) \<and>
   (c \<in> set s \<and> c \<notin> set b64_alphabet \<and> c \<noteq> 0x3D \<and> \<not> ascii_whitespace c \<longrightarrow>
      decodeBase64 s = Inl InvalidCharacterError)"
  using decodeBase64_encode [of bs] decoded_length [of bs] decodeBase64_invalid [of c s]
  by blast

theorem decodeBase64_contract_witness:
  "decodeBase64 (b64_encode [0x41, 0x42, 0x43, 0x44]) = Inr [0x41, 0x42, 0x43, 0x44] \<and>
   decodeBase64 [0x51, 0x2D, 0x51, 0x51] = Inl InvalidCharacterError"
proof -
  have "(0x2D :: code_unit) \<in> set [0x51, 0x2D, 0x51, 0x51] \<and> (0x2D :: code_unit) \<notin> set b64_alphabet \<and>
      (0x2D :: code_unit) \<noteq> 0x3D \<and> \<not> ascii_whitespace (0x2D :: code_unit)"
    by (simp add: b64_alphabet_def ascii_whitespace_def)
  with decodeBase64_contract [of "[0x41, 0x42, 0x43, 0x44]" "0x2D" "[0x51, 0x2D, 0x51, 0x51]"]
  show ?thesis by blast
qed

text \<open>
  Claim C6 as stated fails: the input \<open>Q Q==\<close> contains a space, which is outside the
  Base64 alphabet and is not padding, and it decodes to the byte 0x41 with no error.
\<close>

theorem decodeBase64_whitespace_counterexample:
  "(0x20 :: code_unit) \<in> set [0x51, 0x20, 0x51, 0x3D, 0x3D] \<and>
   (0x20 :: code_unit) \<notin> set b64_alphabet \<and> (0x20 :: code_unit) \<noteq> 0x3D \<and>
   decodeBase64 [0x51, 0x20, 0x51, 0x3D, 0x3D] = Inr [0x41]"
  by (simp add: b64_alphabet_def decodeBase64_def atob_def ascii_whitespace_def strip_padding_def
        b64_value_def typed_set_def)

section \<open>Properties of the playback controller\<close>

lemma session_inv_iff:
  "session_inv s \<longleftrightarrow>
     (\<forall>j<length (nodes s). active (nodes s ! j) \<longrightarrow> sourceNodeRef s = Some j) \<and>
     (\<forall>k. sourceNodeRef s = Some k \<longrightarrow> k < length (nodes s))"
proof (cases "sourceNodeRef s")
  case None
  then show ?thesis
    by (simp add: session_inv_def list_all_iff Ball_def)
next
  case (Some k)
  then show ?thesis
    by (simp add: session_inv_def list_all_iff Ball_def)
qed

lemma active_nodes_empty_iff:
  "active_nodes s = [] \<longleftrightarrow> (\<forall>j<length (nodes s). \<not> active (nodes s ! j))"
  by (simp add: active_nodes_def filter_empty_conv Ball_def)

lemma set_active_nodes:
  "set (active_nodes s) = {j. j < length (nodes s) \<and> active (nodes s ! j)}"
  by (simp add: active_nodes_def set_eq_iff)

lemma distinct_active_nodes: "distinct (active_nodes s)"
  by (simp add: active_nodes_def)

lemma at_most_one_active:
  assumes "session_inv s"
  shows "length (active_nodes s) \<le> 1"
proof (cases "sourceNodeRef s")
  case None
  with assms have "active_nodes s = []"
    by (simp add: session_inv_iff active_nodes_empty_iff)
  then show ?thesis by simp
next
  case (Some k)
  with assms have "\<forall>j<length (nodes s). active (nodes s ! j) \<longrightarrow> j = k"
    by (simp add: session_inv_iff)
  then have "set (active_nodes s) \<subseteq> {k}"
    unfolding set_active_nodes by blast
  then have "card (set (active_nodes s)) \<le> card {k}"
    by (intro card_mono) simp_all
  then show ?thesis
    by (simp add: distinct_card [OF distinct_active_nodes])
qed

lemma not_active_after_stop:
  "\<not> active (source_disconnect (case source_stop t n of Inl e \<Rightarrow> n | Inr n' \<Rightarrow> n'))"
  by (simp add: source_stop_def source_disconnect_def active_def)

lemma stopAudio_fields:
  "isPlaying (stopAudio s) = False" "sourceNodeRef (stopAudio s) = None"
  "length (nodes (stopAudio s)) = length (nodes s)"
  "lastAudioBufferRef (stopAudio s) = lastAudioBufferRef s"
  "audioContextRef (stopAudio s) = audioContextRef s"
  "newAudioContext (stopAudio s) = newAudioContext s"
  by (cases "sourceNodeRef s"; simp add: stopAudio_def Let_def)+

lemma stopAudio_no_active:
  assumes "session_inv s"
  shows "active_nodes (stopAudio s) = []"
proof (cases "sourceNodeRef s")
  case None
  with assms show ?thesis
    by (simp add: session_inv_iff active_nodes_empty_iff stopAudio_def)
next
  case (Some k)
  with assms have k: "k < length (nodes s)"
    and others: "\<And>j. j < length (nodes s) \<Longrightarrow> j \<noteq> k \<Longrightarrow> \<not> active (nodes s ! j)"
    by (simp_all add: session_inv_iff) blast
  show ?thesis
    unfolding active_nodes_empty_iff
  proof (intro allI impI)
    fix j
    assume "j < length (nodes (stopAudio s))"
    then have j: "j < length (nodes s)"
      by (simp add: stopAudio_fields)
    show "\<not> active (nodes (stopAudio s) ! j)"
    proof (cases "j = k")
      case True
      then show ?thesis
        using k Some by (simp add: stopAudio_def Let_def not_active_after_stop)
    next
      case False
      then have "nodes (stopAudio s) ! j = nodes s ! j"
        using Some by (simp add: stopAudio_def Let_def)
      then show ?thesis
        using others [OF j False] by simp
    qed
  qed
qed

lemma no_active_inv:
  assumes "active_nodes s = []" "sourceNodeRef s = None"
  shows "session_inv s"
  using assms unfolding session_inv_iff active_nodes_empty_iff by simp

lemma stopAudio_inv: "session_inv s \<Longrightarrow> session_inv (stopAudio s)"
  by (rule no_active_inv) (simp_all add: stopAudio_no_active stopAudio_fields)

lemma session_inv_cong:
  assumes "nodes s' = nodes s" "sourceNodeRef s' = sourceNodeRef s"
  shows "session_inv s' \<longleftrightarrow> session_inv s"
  by (simp add: session_inv_iff assms)

lemma active_nodes_cong:
  assumes "nodes s' = nodes s"
  shows "active_nodes s' = active_nodes s"
  by (simp add: active_nodes_def assms)

lemma active_new_source: "active (new_source b)"
  by (simp add: new_source_def active_def)

lemma active_nodes_snoc:
  assumes "nodes s' = nodes s @ [x]" "active x"
  shows "active_nodes s' = active_nodes s @ [length (nodes s)]"
proof -
  have "filter (\<lambda>k. active ((nodes s @ [x]) ! k)) [0..<length (nodes s)]
      = filter (\<lambda>k. active (nodes s ! k)) [0..<length (nodes s)]"
    by (rule filter_cong) (simp_all add: nth_append)
  then show ?thesis
    using assms by (simp add: active_nodes_def)
qed

lemma inv_activeD:
  assumes "session_inv s" "j < length (nodes s)" "active (nodes s ! j)"
  shows "sourceNodeRef s = Some j"
  using assms(1) unfolding session_inv_iff using assms(2,3) by blast

lemma inv_refD:
  assumes "session_inv s" "sourceNodeRef s = Some k"
  shows "k < length (nodes s)"
  using assms(1) unfolding session_inv_iff using assms(2) by blast

lemma inv_I:
  assumes "\<And>j. j < length (nodes s) \<Longrightarrow> active (nodes s ! j) \<Longrightarrow> sourceNodeRef s = Some j"
    and "\<And>k. sourceNodeRef s = Some k \<Longrightarrow> k < length (nodes s)"
  shows "session_inv s"
  unfolding session_inv_iff using assms by blast

lemma source_ended_inv:
  assumes "session_inv s"
  shows "session_inv (source_ended k s)"
proof (cases "k < length (nodes s) \<and> started (nodes s ! k) \<and> \<not> ended (nodes s ! k)")
  case False
  then have "source_ended k s = s"
    by (simp only: source_ended_def if_False)
  then show ?thesis using assms by (simp only:)
next
  case True
  let ?s' = "s\<lparr>nodes := (nodes s)[k := (nodes s ! k)\<lparr>ended := True\<rparr>], isPlaying := False\<rparr>"
  have eq: "source_ended k s = ?s'"
    using True by (simp add: source_ended_def)
  have len: "length (nodes ?s') = length (nodes s)" by simp
  have ref: "sourceNodeRef ?s' = sourceNodeRef s" by simp
  have act: "active (nodes s ! j)" if "j < length (nodes s)" "active (nodes ?s' ! j)" for j
    using that by (cases "j = k") (simp_all add: active_def)
  have "session_inv ?s'"
  proof (rule inv_I)
    fix j
    assume "j < length (nodes ?s')" "active (nodes ?s' ! j)"
    then have "j < length (nodes s)" "active (nodes s ! j)"
      using act by (simp_all only: len)
    then have "sourceNodeRef s = Some j"
      using assms inv_activeD by blast
    then show "sourceNodeRef ?s' = Some j" by (simp only: ref)
  next
    fix j
    assume "sourceNodeRef ?s' = Some j"
    then have "sourceNodeRef s = Some j" by (simp only: ref)
    then have "j < length (nodes s)" using assms inv_refD by blast
    then show "j < length (nodes ?s')" by (simp only: len)
  qed
  then show ?thesis by (simp only: eq)
qed

lemma stopAudio_idle:
  assumes "sourceNodeRef s = None"
  shows "stopAudio s = s\<lparr>isPlaying := False\<rparr>"
  using assms by (simp add: stopAudio_def)

lemma stopAudio_throwing:
  assumes "sourceNodeRef s = Some k" "source_stop (stopThrowsWhenFinished s) (nodes s ! k) = Inl e"
  shows "stopAudio s = s\<lparr>nodes := (nodes s)[k := source_disconnect (nodes s ! k)],
                          sourceNodeRef := None, isPlaying := False\<rparr>"
  using assms by (simp add: stopAudio_def Let_def)

lemma stopAudio_idem: "stopAudio (stopAudio s) = stopAudio s"
proof -
  have "stopAudio (stopAudio s) = (stopAudio s)\<lparr>isPlaying := False\<rparr>"
    by (rule stopAudio_idle) (rule stopAudio_fields)
  also have "\<dots> = stopAudio s"
    using stopAudio_fields(1) [of s] by simp
  finally show ?thesis .
qed

lemma stopAudio_initial:
  "stopAudio (initial_state c t txt v) = initial_state c t txt v"
  by (simp add: stopAudio_def initial_state_def)

lemma stopAudio_active_node:
  assumes "sourceNodeRef s = Some k" "k < length (nodes s)" "active (nodes s ! k)"
  shows "stopped (nodes (stopAudio s) ! k)" "\<not> connected (nodes (stopAudio s) ! k)"
proof -
  have "source_stop (stopThrowsWhenFinished s) (nodes s ! k) = Inr ((nodes s ! k)\<lparr>stopped := True\<rparr>)"
    using assms(3) by (simp add: source_stop_def active_def)
  then have "nodes (stopAudio s) ! k = source_disconnect ((nodes s ! k)\<lparr>stopped := True\<rparr>)"
    using assms(1,2) by (simp add: stopAudio_def Let_def)
  then show "stopped (nodes (stopAudio s) ! k)" "\<not> connected (nodes (stopAudio s) ! k)"
    by (simp_all add: source_disconnect_def)
qed

lemma stopAudio_keeps_context: "context_available s \<Longrightarrow> context_available (stopAudio s)"
  unfolding context_available_def by (simp only: stopAudio_fields)

lemma example_bytes: "decodeBase64 [0x41, 0x45, 0x41, 0x3D] = Inr [0x00, 0x40]"
proof -
  have "b64_encode [0x00, 0x40] = [0x41, 0x45, 0x41, 0x3D]"
    by (simp add: b64_encode_def b64_padding_def b64_char_def)
  then show ?thesis
    using decodeBase64_encode [of "[0x00, 0x40]"] by simp
qed

lemma example_decoded: "decodeAudioData [0x00, 0x40] minimal_context 24000 1 = Inr example_buffer"
proof -
  have "decodeAudioData [0x00, 0x40] minimal_context 24000 1 =
      Inr \<lparr>sampleRate = 24000, length_frames = length [0x00, 0x40 :: byte] div 2 div 1,
           channelData =
             map (\<lambda>ch. map (\<lambda>i. Num (real_of_int (sint (int16_elements [0x00, 0x40] ! (i * 1 + ch))) / 32768))
                           [0..<length [0x00, 0x40 :: byte] div 2 div 1])
                 [0..<1]\<rparr>"
    by (rule decodeAudioData_even) (simp_all add: minimal_context_def)
  then show ?thesis
    by (simp add: example_buffer_def)
qed

lemma stopAudio_pending: "pending (stopAudio s) = pending s"
  by (cases "sourceNodeRef s"; simp add: stopAudio_def Let_def)

lemma quiet_session: "quiet s \<Longrightarrow> session_inv s"
  unfolding quiet_def by (rule no_active_inv) simp_all

lemma quiet_stopAudio: "session_inv s \<Longrightarrow> quiet (stopAudio s)"
  unfolding quiet_def by (simp add: stopAudio_no_active stopAudio_fields)

lemma quiet_cong:
  assumes "nodes s' = nodes s" "sourceNodeRef s' = sourceNodeRef s"
  shows "quiet s' \<longleftrightarrow> quiet s"
  unfolding quiet_def by (simp only: active_nodes_cong [OF assms(1)] assms(2))

text \<open>What the parts of the handlers leave as it is.\<close>

lemma suspend_fields:
  "nodes (suspend k s) = nodes s" "sourceNodeRef (suspend k s) = sourceNodeRef s"
  "pending (suspend k s) = pending s @ [k]"
  "lastAudioBufferRef (suspend k s) = lastAudioBufferRef s"
  "audioContextRef (suspend k s) = audioContextRef s"
  "newAudioContext (suspend k s) = newAudioContext s"
  "isPlaying (suspend k s) = isPlaying s"
  "stopThrowsWhenFinished (suspend k s) = stopThrowsWhenFinished s"
  by (simp_all add: suspend_def)

lemma generate_failed_fields:
  "nodes (generate_failed e s) = nodes s" "sourceNodeRef (generate_failed e s) = sourceNodeRef s"
  "pending (generate_failed e s) = pending s"
  by (simp_all add: generate_failed_def)

lemma ensure_begin_fields:
  "nodes (snd (ensureAudioContext_begin s)) = nodes s"
  "sourceNodeRef (snd (ensureAudioContext_begin s)) = sourceNodeRef s"
  "pending (snd (ensureAudioContext_begin s)) = pending s"
  "lastAudioBufferRef (snd (ensureAudioContext_begin s)) = lastAudioBufferRef s"
  "newAudioContext (snd (ensureAudioContext_begin s)) = newAudioContext s"
  "isPlaying (snd (ensureAudioContext_begin s)) = isPlaying s"
  "stopThrowsWhenFinished (snd (ensureAudioContext_begin s)) = stopThrowsWhenFinished s"
  by (cases "audioContextRef s"; cases "newAudioContext s"; simp add: ensureAudioContext_begin_def)+

lemma ensure_begin_available:
  assumes "context_available s"
  shows "\<exists>c. fst (ensureAudioContext_begin s) = Inr c \<and>
             audioContextRef (snd (ensureAudioContext_begin s)) = Some c"
  using assms
  by (cases "audioContextRef s"; cases "newAudioContext s")
     (simp_all add: ensureAudioContext_begin_def context_available_def)

lemma ensure_end_fields:
  "nodes (snd (ensureAudioContext_end c s)) = nodes s"
  "sourceNodeRef (snd (ensureAudioContext_end c s)) = sourceNodeRef s"
  "pending (snd (ensureAudioContext_end c s)) = pending s"
  "lastAudioBufferRef (snd (ensureAudioContext_end c s)) = lastAudioBufferRef s"
  "newAudioContext (snd (ensureAudioContext_end c s)) = newAudioContext s"
  "isPlaying (snd (ensureAudioContext_end c s)) = isPlaying s"
  "stopThrowsWhenFinished (snd (ensureAudioContext_end c s)) = stopThrowsWhenFinished s"
  "audioContextRef (snd (ensureAudioContext_end c s)) \<noteq> None"
  by (simp_all add: ensureAudioContext_end_def Let_def)

lemma playBuffer_resume_fields:
  "nodes (playBuffer_resume b s) = nodes s @ [new_source b]"
  "sourceNodeRef (playBuffer_resume b s) = Some (length (nodes s))"
  "pending (playBuffer_resume b s) = pending s"
  "lastAudioBufferRef (playBuffer_resume b s) = lastAudioBufferRef s"
  "audioContextRef (playBuffer_resume b s) = audioContextRef s"
  "newAudioContext (playBuffer_resume b s) = newAudioContext s"
  "isPlaying (playBuffer_resume b s) = True"
  "stopThrowsWhenFinished (playBuffer_resume b s) = stopThrowsWhenFinished s"
  by (simp_all add: playBuffer_resume_def Let_def new_source_def)

lemma playBuffer_resume_session:
  assumes "active_nodes s = []"
  shows "active_nodes (playBuffer_resume b s) = [length (nodes s)]"
    and "session_inv (playBuffer_resume b s)"
proof -
  let ?s' = "playBuffer_resume b s"
  have n: "nodes ?s' = nodes s @ [new_source b]" by (rule playBuffer_resume_fields)
  have r: "sourceNodeRef ?s' = Some (length (nodes s))" by (rule playBuffer_resume_fields)
  show a: "active_nodes ?s' = [length (nodes s)]"
    using active_nodes_snoc [OF n active_new_source] assms by simp
  have "\<forall>j<length (nodes ?s'). active (nodes ?s' ! j) \<longrightarrow> j = length (nodes s)"
  proof (intro allI impI)
    fix j
    assume "j < length (nodes ?s')" "active (nodes ?s' ! j)"
    then have "j \<in> set (active_nodes ?s')" by (simp add: set_active_nodes)
    then show "j = length (nodes s)" by (simp add: a)
  qed
  then show "session_inv ?s'"
    unfolding session_inv_iff r by (simp add: n) blast
qed

text \<open>\<open>playBuffer\<close> itself has no teardown: a second call leaves the node of the first active.\<close>

lemma playBuffer_twice_two_active:
  "\<exists>s1 s2. playBuffer (example_start False) example_buffer = Inr s1 \<and>
     playBuffer s1 example_buffer = Inr s2 \<and> active_nodes s2 = [0, 1]"
  by (simp add: playBuffer_def ensureAudioContext_def ensureAudioContext_begin_def
        ensureAudioContext_end_def playBuffer_resume_def example_start_def initial_state_def
        minimal_context_def Let_def active_nodes_def active_def numeral_2_eq_2)

text \<open>Steps that keep the nodes, the ref and the suspended calls keep the invariants.\<close>

lemma keeps_suspend [simp]:
  "quiet (suspend k s) = quiet s" "session_inv (suspend k s) = session_inv s"
  by (rule quiet_cong session_inv_cong; simp add: suspend_fields)+

lemma keeps_generate_failed [simp]:
  "quiet (generate_failed e s) = quiet s" "session_inv (generate_failed e s) = session_inv s"
  by (rule quiet_cong session_inv_cong; simp add: generate_failed_fields)+

lemma keeps_ensure_begin [simp]:
  "quiet (snd (ensureAudioContext_begin s)) = quiet s"
  "session_inv (snd (ensureAudioContext_begin s)) = session_inv s"
  by (rule quiet_cong session_inv_cong; simp add: ensure_begin_fields)+

lemma keeps_ensure_end [simp]:
  "quiet (snd (ensureAudioContext_end c s)) = quiet s"
  "session_inv (snd (ensureAudioContext_end c s)) = session_inv s"
  by (rule quiet_cong session_inv_cong; simp add: ensure_end_fields)+

lemma keeps_pending_update [simp]:
  "quiet (s\<lparr>pending := p\<rparr>) = quiet s" "session_inv (s\<lparr>pending := p\<rparr>) = session_inv s"
  by (rule quiet_cong session_inv_cong; simp)+

lemma keeps_state_updates [simp]:
  "quiet (s\<lparr>consoleErrors := n\<rparr>) = quiet s"
  "session_inv (s\<lparr>consoleErrors := n\<rparr>) = session_inv s"
  "quiet (s\<lparr>isLoading := l\<rparr>) = quiet s"
  "session_inv (s\<lparr>isLoading := l\<rparr>) = session_inv s"
  "quiet (s\<lparr>consoleErrors := n, error := e\<rparr>) = quiet s"
  "session_inv (s\<lparr>consoleErrors := n, error := e\<rparr>) = session_inv s"
  "quiet (s\<lparr>lastAudioBufferRef := lb, hasAudio := h\<rparr>) = quiet s"
  "session_inv (s\<lparr>lastAudioBufferRef := lb, hasAudio := h\<rparr>) = session_inv s"
  "quiet (s\<lparr>error := e, isLoading := l, hasAudio := h\<rparr>) = quiet s"
  "session_inv (s\<lparr>error := e, isLoading := l, hasAudio := h\<rparr>) = session_inv s"
  by (rule quiet_cong session_inv_cong; simp)+

lemma quiet_playBuffer_resume:
  "quiet s \<Longrightarrow> session_inv (playBuffer_resume b s)"
  unfolding quiet_def by (simp add: playBuffer_resume_session)

lemma serial_inv_Nil: "pending s = [] \<Longrightarrow> serial_inv s \<longleftrightarrow> session_inv s"
  by (simp add: serial_inv_def)

lemma serial_inv_single:
  "pending s = [k] \<Longrightarrow> serial_inv s \<longleftrightarrow> (if before_play k then quiet s else session_inv s)"
  by (simp add: serial_inv_def)

lemma serial_inv_cases:
  assumes "serial_inv s"
  obtains "pending s = []" "session_inv s"
  | k where "pending s = [k]" "before_play k" "quiet s"
  | k where "pending s = [k]" "\<not> before_play k" "session_inv s"
proof (cases "pending s")
  case Nil
  with assms that(1) show ?thesis by (simp add: serial_inv_def)
next
  case (Cons k ks)
  show ?thesis
  proof (cases ks)
    case Nil
    with Cons have p: "pending s = [k]" by simp
    show ?thesis
    proof (cases "before_play k")
      case True
      with assms p have "quiet s" by (simp add: serial_inv_single)
      with p True that(2) show ?thesis by blast
    next
      case False
      with assms p have "session_inv s" by (simp add: serial_inv_single)
      with p False that(3) show ?thesis by blast
    qed
  next
    case (Cons k' ks')
    with \<open>pending s = k # ks\<close> assms show ?thesis by (simp add: serial_inv_def)
  qed
qed

lemma serial_inv_session:
  assumes "serial_inv s"
  shows "session_inv s"
  using assms
proof (cases rule: serial_inv_cases)
  case 1
  then show ?thesis by simp
next
  case (2 k)
  then show ?thesis by (simp add: quiet_session)
next
  case (3 k)
  then show ?thesis by simp
qed

lemma serial_inv_keeps:
  assumes "serial_inv s" "pending s' = pending s"
    and "session_inv s \<Longrightarrow> session_inv s'" and "quiet s \<Longrightarrow> quiet s'"
  shows "serial_inv s'"
  using assms(1)
proof (cases rule: serial_inv_cases)
  case 1
  then show ?thesis using assms(2,3) by (simp add: serial_inv_Nil)
next
  case (2 k)
  then show ?thesis using assms(2,4) by (simp add: serial_inv_single)
next
  case (3 k)
  then show ?thesis using assms(2,3) by (simp add: serial_inv_single)
qed

lemma source_ended_quiet:
  assumes "quiet s"
  shows "quiet (source_ended k s)"
proof (cases "k < length (nodes s) \<and> started (nodes s ! k) \<and> \<not> ended (nodes s ! k)")
  case False
  then have "source_ended k s = s"
    by (simp only: source_ended_def if_False)
  then show ?thesis using assms by (simp only:)
next
  case True
  let ?s' = "s\<lparr>nodes := (nodes s)[k := (nodes s ! k)\<lparr>ended := True\<rparr>], isPlaying := False\<rparr>"
  have eq: "source_ended k s = ?s'"
    using True by (simp add: source_ended_def)
  have none: "\<forall>j<length (nodes s). \<not> active (nodes s ! j)"
    using assms by (simp add: quiet_def active_nodes_empty_iff)
  have "\<not> active (nodes ?s' ! j)" if "j < length (nodes ?s')" for j
    using that none by (cases "j = k") (simp_all add: active_def)
  then have "active_nodes ?s' = []"
    unfolding active_nodes_empty_iff by blast
  moreover have "sourceNodeRef ?s' = None"
    using assms by (simp add: quiet_def)
  ultimately show ?thesis
    unfolding eq quiet_def by blast
qed

lemma source_ended_pending: "pending (source_ended k s) = pending s"
  by (simp add: source_ended_def)

lemma keeps_sync_handlers [simp]:
  "quiet (handleDownload isoString s) = quiet s"
  "session_inv (handleDownload isoString s) = session_inv s"
  "quiet (onTextChange t s) = quiet s"
  "session_inv (onTextChange t s) = session_inv s"
  "quiet (onVoiceChange v s) = quiet s"
  "session_inv (onVoiceChange v s) = session_inv s"
proof -
  have d: "nodes (handleDownload isoString s) = nodes s"
    "sourceNodeRef (handleDownload isoString s) = sourceNodeRef s"
    by (cases "lastAudioBufferRef s"; simp add: handleDownload_def Let_def)+
  show "quiet (handleDownload isoString s) = quiet s"
    using d by (rule quiet_cong)
  show "session_inv (handleDownload isoString s) = session_inv s"
    using d by (rule session_inv_cong)
  show "quiet (onTextChange t s) = quiet s"
    by (rule quiet_cong) (simp_all add: onTextChange_def)
  show "session_inv (onTextChange t s) = session_inv s"
    by (rule session_inv_cong) (simp_all add: onTextChange_def)
  show "quiet (onVoiceChange v s) = quiet s"
    by (rule quiet_cong) (simp_all add: onVoiceChange_def)
  show "session_inv (onVoiceChange v s) = session_inv s"
    by (rule session_inv_cong) (simp_all add: onVoiceChange_def)
qed

lemma sync_pending:
  "pending (handleDownload isoString s) = pending s"
  "pending (onTextChange t s) = pending s"
  "pending (onVoiceChange v s) = pending s"
  by (cases "lastAudioBufferRef s"; simp add: handleDownload_def onTextChange_def onVoiceChange_def Let_def)+

text \<open>A handler called when no call is suspended.\<close>

lemma handleReplay_serial:
  assumes "session_inv s" "pending s = []"
  shows "serial_inv (handleReplay s)"
proof (cases "lastAudioBufferRef s")
  case None
  then have "handleReplay s = s" by (simp add: handleReplay_def)
  then show ?thesis using assms by (simp add: serial_inv_Nil)
next
  case (Some b)
  let ?e = "ensureAudioContext_begin (stopAudio s)"
  have eq: "handleReplay s = suspend (Replay_playBuffer b (fst ?e)) (snd ?e)"
    using Some by (simp add: handleReplay_def Let_def split_def)
  have p: "pending (handleReplay s) = [Replay_playBuffer b (fst ?e)]"
    unfolding eq by (simp add: suspend_fields ensure_begin_fields stopAudio_pending assms(2))
  have "quiet (handleReplay s)"
    unfolding eq using assms(1) by (simp add: quiet_stopAudio)
  then show ?thesis
    by (simp add: serial_inv_single [OF p])
qed

lemma handleGenerateAndPlay_serial:
  assumes "session_inv s" "pending s = []"
  shows "serial_inv (handleGenerateAndPlay api s)"
proof -
  let ?s0 = "stopAudio (s\<lparr>error := None, isLoading := True, hasAudio := False\<rparr>)"
  let ?e = "ensureAudioContext_begin ?s0"
  have eq: "handleGenerateAndPlay api s =
      suspend (Generate_ensured (textValue s) (voice s) api (fst ?e)) (snd ?e)"
    by (simp add: handleGenerateAndPlay_def Let_def split_def)
  have p: "pending (handleGenerateAndPlay api s) =
      [Generate_ensured (textValue s) (voice s) api (fst ?e)]"
    unfolding eq by (simp add: suspend_fields ensure_begin_fields stopAudio_pending assms(2))
  have "session_inv (s\<lparr>error := None, isLoading := True, hasAudio := False\<rparr>)"
    using assms(1) by simp
  then have "quiet ?s0" by (rule quiet_stopAudio)
  then have "quiet (handleGenerateAndPlay api s)"
    unfolding eq by simp
  then show ?thesis
    by (simp add: serial_inv_single [OF p])
qed

text \<open>The one suspended call is resumed.\<close>

lemma resume_serial:
  assumes "pending s = []" "if before_play k then quiet s else session_inv s"
  shows "serial_inv (resume k s)"
proof (cases "(k, s)" rule: resume.cases)
  case (1 buffer e s')
  then show ?thesis using assms
    by (simp add: serial_inv_def suspend_fields quiet_session)
next
  case (2 buffer c s')
  then show ?thesis using assms
    by (simp add: serial_inv_def suspend_fields split_def Let_def playBuffer_resume_fields
          ensure_end_fields quiet_playBuffer_resume)
next
  case (3 s')
  then show ?thesis using assms by (simp add: serial_inv_def)
next
  case (4 e s')
  then show ?thesis using assms by (simp add: serial_inv_def)
next
  case (5 tx v api e s')
  then show ?thesis using assms
    by (simp add: serial_inv_def generate_failed_fields quiet_session)
next
  case (6 tx v api c s')
  then show ?thesis using assms
    by (simp add: serial_inv_def suspend_fields split_def Let_def ensure_end_fields)
next
  case (7 ctx outcome s')
  then show ?thesis using assms
    by (simp add: serial_inv_def suspend_fields generate_failed_fields quiet_session Let_def
          split: sum.split)
next
  case (8 e s')
  then show ?thesis using assms
    by (simp add: serial_inv_def generate_failed_fields quiet_session)
next
  case (9 audioBuffer s')
  then show ?thesis using assms
    by (simp add: serial_inv_def suspend_fields split_def ensure_begin_fields Let_def)
next
  case (10 buffer e s')
  then show ?thesis using assms
    by (simp add: serial_inv_def suspend_fields quiet_session)
next
  case (11 buffer c s')
  then show ?thesis using assms
    by (simp add: serial_inv_def suspend_fields split_def Let_def playBuffer_resume_fields
          ensure_end_fields quiet_playBuffer_resume)
next
  case (12 s')
  then show ?thesis using assms by (simp add: serial_inv_def)
next
  case (13 e s')
  then show ?thesis using assms
    by (simp add: serial_inv_def generate_failed_fields)
qed

lemma resume_step_serial:
  assumes "serial_inv s"
  shows "serial_inv (step (Resume i) s)"
  using assms
proof (cases rule: serial_inv_cases)
  case 1
  then show ?thesis using assms by simp
next
  case (2 k)
  show ?thesis
  proof (cases "i = 0")
    case True
    have "serial_inv (resume k (s\<lparr>pending := []\<rparr>))"
      by (rule resume_serial) (simp_all add: 2)
    then show ?thesis using True 2(1) by simp
  next
    case False
    then show ?thesis using assms 2(1) by simp
  qed
next
  case (3 k)
  show ?thesis
  proof (cases "i = 0")
    case True
    have "serial_inv (resume k (s\<lparr>pending := []\<rparr>))"
      by (rule resume_serial) (simp_all add: 3)
    then show ?thesis using True 3(1) by simp
  next
    case False
    then show ?thesis using assms 3(1) by simp
  qed
qed

lemma step_serial:
  assumes "serial_inv s" "is_call ev \<longrightarrow> pending s = []"
  shows "serial_inv (step ev s)"
proof (cases ev)
  case (GenerateAndPlay api)
  with assms(2) have p: "pending s = []" by simp
  with assms(1) have "session_inv s" by (simp add: serial_inv_Nil)
  then show ?thesis
    unfolding GenerateAndPlay step.simps using p by (rule handleGenerateAndPlay_serial)
next
  case Replay
  with assms(2) have p: "pending s = []" by simp
  with assms(1) have "session_inv s" by (simp add: serial_inv_Nil)
  then show ?thesis
    unfolding Replay step.simps using p by (rule handleReplay_serial)
next
  case (Download isoString)
  show ?thesis
    unfolding Download step.simps using assms(1)
    by (rule serial_inv_keeps)
       (simp_all add: sync_pending)
next
  case Stop
  have "quiet (stopAudio s)"
    using assms(1) by (intro quiet_stopAudio serial_inv_session)
  show ?thesis
    unfolding Stop step.simps using assms(1)
    by (rule serial_inv_keeps)
       (simp_all add: stopAudio_pending stopAudio_inv \<open>quiet (stopAudio s)\<close>)
next
  case (Ended k)
  show ?thesis
    unfolding Ended step.simps using assms(1)
    by (rule serial_inv_keeps)
       (simp_all add: source_ended_pending source_ended_inv source_ended_quiet)
next
  case (TextChange t)
  show ?thesis
    unfolding TextChange step.simps using assms(1)
    by (rule serial_inv_keeps) (simp_all add: sync_pending)
next
  case (VoiceChange v)
  show ?thesis
    unfolding VoiceChange step.simps using assms(1)
    by (rule serial_inv_keeps) (simp_all add: sync_pending)
next
  case (Resume i)
  show ?thesis
    unfolding Resume using assms(1) by (rule resume_step_serial)
qed

lemma initial_serial: "serial_inv (initial_state c t txt v)"
  by (simp add: serial_inv_def session_inv_def initial_state_def)

lemma fold_step_serial:
  "serial_inv s \<Longrightarrow> no_overlap evs s \<Longrightarrow> serial_inv (fold step evs s)"
proof (induction evs arbitrary: s)
  case Nil
  then show ?case by simp
next
  case (Cons ev evs)
  from Cons.prems(2) have c: "is_call ev \<longrightarrow> pending s = []" and rest: "no_overlap evs (step ev s)"
    by simp_all
  have "serial_inv (step ev s)"
    using Cons.prems(1) c by (rule step_serial)
  then have "serial_inv (fold step evs (step ev s))"
    using rest by (rule Cons.IH)
  then show ?case by simp
qed

lemma run_serial: "serial_inv s \<Longrightarrow> no_overlap evs s \<Longrightarrow> serial_inv (run evs s)"
  unfolding run_def by (rule fold_step_serial)

lemma no_overlap_not_calls:
  "\<forall>ev\<in>set evs. \<not> is_call ev \<Longrightarrow> no_overlap evs s"
  by (induction evs arbitrary: s) simp_all

lemma handleReplay_fields:
  assumes "lastAudioBufferRef s = Some b"
  shows "nodes (handleReplay s) = nodes (stopAudio s)"
    and "sourceNodeRef (handleReplay s) = None"
    and "handleReplay s =
           suspend (Replay_playBuffer b (fst (ensureAudioContext_begin (stopAudio s))))
             (snd (ensureAudioContext_begin (stopAudio s)))"
proof -
  show eq: "handleReplay s =
           suspend (Replay_playBuffer b (fst (ensureAudioContext_begin (stopAudio s))))
             (snd (ensureAudioContext_begin (stopAudio s)))"
    using assms by (simp add: handleReplay_def Let_def split_def)
  show "nodes (handleReplay s) = nodes (stopAudio s)"
    unfolding eq by (simp add: suspend_fields ensure_begin_fields)
  show "sourceNodeRef (handleReplay s) = None"
    unfolding eq by (simp add: suspend_fields ensure_begin_fields stopAudio_fields)
qed

text \<open>
  One call of \<open>handleReplay\<close> that runs to its end with nothing in between: the call, the
  resumption of \<open>playBuffer\<close>, and the resumption of \<open>handleReplay\<close> itself.
\<close>

lemma replay_completed:
  assumes inv: "session_inv s" and idle: "pending s = []"
    and buf: "lastAudioBufferRef s = Some b" and ctx: "context_available s"
  shows "nodes (run [Replay, Resume 0, Resume 0] s) = nodes (stopAudio s) @ [new_source b]"
    and "active_nodes (run [Replay, Resume 0, Resume 0] s) = [length (nodes s)]"
    and "sourceNodeRef (run [Replay, Resume 0, Resume 0] s) = Some (length (nodes s))"
    and "lastAudioBufferRef (run [Replay, Resume 0, Resume 0] s) = Some b"
    and "context_available (run [Replay, Resume 0, Resume 0] s)"
    and "session_inv (run [Replay, Resume 0, Resume 0] s)"
    and "isPlaying (run [Replay, Resume 0, Resume 0] s)"
    and "pending (run [Replay, Resume 0, Resume 0] s) = []"
proof -
  let ?e = "ensureAudioContext_begin (stopAudio s)"
  have "context_available (stopAudio s)"
    using ctx by (rule stopAudio_keeps_context)
  then obtain c where c: "fst ?e = Inr c"
    using ensure_begin_available by blast
  define called where "called = handleReplay s"
  have called: "called = suspend (Replay_playBuffer b (Inr c)) (snd ?e)"
    unfolding called_def using handleReplay_fields(3) [OF buf] c by simp
  have p_called: "pending called = [Replay_playBuffer b (Inr c)]"
    unfolding called by (simp add: suspend_fields ensure_begin_fields stopAudio_pending idle)
  define x where "x = snd (ensureAudioContext_end c (called\<lparr>pending := []\<rparr>))"
  have x_nodes: "nodes x = nodes (stopAudio s)"
    unfolding x_def called by (simp add: ensure_end_fields suspend_fields ensure_begin_fields)
  have x_ref: "sourceNodeRef x = None"
    unfolding x_def called
    by (simp add: ensure_end_fields suspend_fields ensure_begin_fields stopAudio_fields)
  have x_pending: "pending x = []"
    unfolding x_def by (simp add: ensure_end_fields)
  have x_buf: "lastAudioBufferRef x = Some b"
    unfolding x_def called
    by (simp add: ensure_end_fields suspend_fields ensure_begin_fields stopAudio_fields buf)
  have x_ctx: "audioContextRef x \<noteq> None"
    unfolding x_def by (rule ensure_end_fields)
  have x_quiet: "active_nodes x = []"
    using stopAudio_no_active [OF inv] by (simp only: active_nodes_cong [OF x_nodes])
  define mid where "mid = suspend (Replay_done None) (playBuffer_resume b x)"
  have step1: "step (Resume 0) called = mid"
    unfolding mid_def x_def by (simp add: p_called split_def Let_def)
  have p_mid: "pending mid = [Replay_done None]"
    unfolding mid_def by (simp add: suspend_fields playBuffer_resume_fields x_pending)
  have step2: "step (Resume 0) mid = mid\<lparr>pending := []\<rparr>"
    by (simp add: p_mid)
  have run: "run [Replay, Resume 0, Resume 0] s = mid\<lparr>pending := []\<rparr>"
  proof -
    have "run [Replay, Resume 0, Resume 0] s = step (Resume 0) (step (Resume 0) called)"
      unfolding called_def run_def by (simp del: step.simps add: step.simps(2))
    then show ?thesis
      by (simp only: step1 step2)
  qed
  have len: "length (nodes x) = length (nodes s)"
    by (simp add: x_nodes stopAudio_fields)
  have n: "nodes (mid\<lparr>pending := []\<rparr>) = nodes (playBuffer_resume b x)"
    unfolding mid_def by (simp add: suspend_fields)
  have r: "sourceNodeRef (mid\<lparr>pending := []\<rparr>) = sourceNodeRef (playBuffer_resume b x)"
    unfolding mid_def by (simp add: suspend_fields)
  show "nodes (run [Replay, Resume 0, Resume 0] s) = nodes (stopAudio s) @ [new_source b]"
    unfolding run n by (simp add: playBuffer_resume_fields x_nodes)
  show "active_nodes (run [Replay, Resume 0, Resume 0] s) = [length (nodes s)]"
    unfolding run using playBuffer_resume_session(1) [OF x_quiet, of b]
    by (simp only: active_nodes_cong [OF n] len)
  show "sourceNodeRef (run [Replay, Resume 0, Resume 0] s) = Some (length (nodes s))"
    unfolding run r by (simp add: playBuffer_resume_fields len)
  show "lastAudioBufferRef (run [Replay, Resume 0, Resume 0] s) = Some b"
    unfolding run mid_def by (simp add: suspend_fields playBuffer_resume_fields x_buf)
  from x_ctx obtain y where y: "audioContextRef x = Some y"
    by blast
  show "context_available (run [Replay, Resume 0, Resume 0] s)"
    unfolding run mid_def context_available_def
    by (simp add: suspend_fields playBuffer_resume_fields y)
  show "session_inv (run [Replay, Resume 0, Resume 0] s)"
    unfolding run using playBuffer_resume_session(2) [OF x_quiet, of b]
    by (simp only: session_inv_cong [OF n r])
  show "isPlaying (run [Replay, Resume 0, Resume 0] s)"
    unfolding run mid_def by (simp add: suspend_fields playBuffer_resume_fields)
  show "pending (run [Replay, Resume 0, Resume 0] s) = []"
    unfolding run by simp
qed

lemma replay_twice:
  assumes inv: "session_inv s" and idle: "pending s = []"
    and buf: "lastAudioBufferRef s = Some b" and ctx: "context_available s"
  shows "active_nodes (run [Replay, Resume 0, Resume 0] s) = [length (nodes s)]"
    and "sourceNodeRef (run [Replay, Resume 0, Resume 0] s) = Some (length (nodes s))"
    and "active_nodes (handleReplay (run [Replay, Resume 0, Resume 0] s)) = []"
    and "sourceNodeRef (handleReplay (run [Replay, Resume 0, Resume 0] s)) = None"
    and "stopped (nodes (handleReplay (run [Replay, Resume 0, Resume 0] s)) ! length (nodes s))"
    and "\<not> connected (nodes (handleReplay (run [Replay, Resume 0, Resume 0] s)) ! length (nodes s))"
    and "active_nodes (run [Resume 0, Resume 0] (handleReplay (run [Replay, Resume 0, Resume 0] s)))
           = [length (nodes s) + 1]"
    and "sourceNodeRef (run [Resume 0, Resume 0] (handleReplay (run [Replay, Resume 0, Resume 0] s)))
           = Some (length (nodes s) + 1)"
    and "stopped (nodes (run [Resume 0, Resume 0] (handleReplay (run [Replay, Resume 0, Resume 0] s)))
           ! length (nodes s))"
    and "\<not> connected (nodes (run [Resume 0, Resume 0] (handleReplay (run [Replay, Resume 0, Resume 0] s)))
           ! length (nodes s))"
    and "isPlaying (run [Resume 0, Resume 0] (handleReplay (run [Replay, Resume 0, Resume 0] s)))"
proof -
  let ?s1 = "run [Replay, Resume 0, Resume 0] s"
  let ?f = "length (nodes s)"
  note first = replay_completed [OF inv idle buf ctx]
  note second = replay_completed [OF first(6) first(8) first(4) first(5)]
  have again: "run [Resume 0, Resume 0] (handleReplay ?s1) = run [Replay, Resume 0, Resume 0] ?s1"
    by (simp add: run_def)
  have len1: "length (nodes ?s1) = ?f + 1"
    by (simp add: first(1) stopAudio_fields)
  have f_in: "?f < length (nodes ?s1)"
    by (simp add: len1)
  have "?f \<in> set (active_nodes ?s1)"
    by (simp add: first(2))
  then have act: "active (nodes ?s1 ! ?f)"
    by (simp add: set_active_nodes)
  note called = handleReplay_fields [OF first(4)]
  show "active_nodes ?s1 = [?f]" by (rule first(2))
  show "sourceNodeRef ?s1 = Some ?f" by (rule first(3))
  show "active_nodes (handleReplay ?s1) = []"
    using stopAudio_no_active [OF first(6)] by (simp only: active_nodes_cong [OF called(1)])
  show "sourceNodeRef (handleReplay ?s1) = None"
    by (rule called(2))
  show "stopped (nodes (handleReplay ?s1) ! ?f)"
    unfolding called(1) using first(3) f_in act by (rule stopAudio_active_node)
  show "\<not> connected (nodes (handleReplay ?s1) ! ?f)"
    unfolding called(1) using first(3) f_in act by (rule stopAudio_active_node)
  show "active_nodes (run [Resume 0, Resume 0] (handleReplay ?s1)) = [?f + 1]"
    unfolding again using second(2) by (simp only: len1)
  show "sourceNodeRef (run [Resume 0, Resume 0] (handleReplay ?s1)) = Some (?f + 1)"
    unfolding again using second(3) by (simp only: len1)
  have nth: "nodes (run [Replay, Resume 0, Resume 0] ?s1) ! ?f = nodes (stopAudio ?s1) ! ?f"
    using f_in by (simp add: second(1) nth_append stopAudio_fields)
  show "stopped (nodes (run [Resume 0, Resume 0] (handleReplay ?s1)) ! ?f)"
    unfolding again nth using first(3) f_in act by (rule stopAudio_active_node)
  show "\<not> connected (nodes (run [Resume 0, Resume 0] (handleReplay ?s1)) ! ?f)"
    unfolding again nth using first(3) f_in act by (rule stopAudio_active_node)
  show "isPlaying (run [Resume 0, Resume 0] (handleReplay ?s1))"
    unfolding again by (rule second(7))
qed

lemma example_outcome:
  "generateJapaneseSpeech example_api [0x3042] () =
     \<lparr>gen_result = Inr [0x41, 0x45, 0x41, 0x3D], api_calls = [([0x3042], ())], console = []\<rparr>"
  by (simp add: generateJapaneseSpeech_def trim_def js_whitespace_def example_api_def)

lemma example_generated:
  "run generate_to_end (example_start t) =
     \<lparr>textValue = [0x3042], voice = (), isLoading = False, isPlaying = True, error = None,
      hasAudio = True, audioContextRef = Some minimal_context, sourceNodeRef = Some 0,
      analyserRef = Some \<lparr>fftSize = 2048\<rparr>, lastAudioBufferRef = Some example_buffer,
      nodes = [new_source example_buffer], newAudioContext = Inr minimal_context,
      stopThrowsWhenFinished = t, downloads = [], consoleErrors = 0, pending = []\<rparr>"
proof -
  have st: "state minimal_context = Running"
    by (simp add: minimal_context_def)
  have dec: "decodeAudioData [0x00, 0x40] minimal_context 24000 (Suc 0) = Inr example_buffer"
    using example_decoded by simp
  show ?thesis
    by (simp add: generate_to_end_def dec run_def example_start_def initial_state_def
          handleGenerateAndPlay_def stopAudio_def suspend_def
          ensureAudioContext_begin_def ensureAudioContext_end_def st Let_def
          example_outcome example_bytes playBuffer_resume_def new_source_def)
qed

lemma example_ended:
  "run (generate_to_end @ [Ended 0]) (example_start t) =
     \<lparr>textValue = [0x3042], voice = (), isLoading = False, isPlaying = False, error = None,
      hasAudio = True, audioContextRef = Some minimal_context, sourceNodeRef = Some 0,
      analyserRef = Some \<lparr>fftSize = 2048\<rparr>, lastAudioBufferRef = Some example_buffer,
      nodes = [(new_source example_buffer)\<lparr>ended := True\<rparr>],
      newAudioContext = Inr minimal_context,
      stopThrowsWhenFinished = t, downloads = [], consoleErrors = 0, pending = []\<rparr>"
proof -
  have "run (generate_to_end @ [Ended 0]) (example_start t)
      = source_ended 0 (run generate_to_end (example_start t))"
    by (simp add: run_def)
  then show ?thesis
    unfolding example_generated by (simp add: source_ended_def new_source_def)
qed

lemma example_no_overlap: "no_overlap generate_to_end (example_start t)"
  by (simp add: generate_to_end_def example_start_def initial_state_def no_overlap_not_calls)

lemma example_overlap:
  "run [Replay, Replay, Resume 0, Resume 0] (run generate_to_end (example_start t)) =
     \<lparr>textValue = [0x3042], voice = (), isLoading = False, isPlaying = True, error = None,
      hasAudio = True, audioContextRef = Some minimal_context, sourceNodeRef = Some 2,
      analyserRef = Some \<lparr>fftSize = 2048\<rparr>, lastAudioBufferRef = Some example_buffer,
      nodes = [(new_source example_buffer)\<lparr>stopped := True, connected := False\<rparr>,
               new_source example_buffer, new_source example_buffer],
      newAudioContext = Inr minimal_context,
      stopThrowsWhenFinished = t, downloads = [], consoleErrors = 0,
      pending = [Replay_done None, Replay_done None]\<rparr>"
proof -
  have st: "state minimal_context = Running"
    by (simp add: minimal_context_def)
  show ?thesis
    unfolding example_generated
    by (simp add: run_def handleReplay_def stopAudio_def suspend_def source_stop_def
          source_disconnect_def ensureAudioContext_begin_def ensureAudioContext_end_def st Let_def
          playBuffer_resume_def new_source_def)
qed

text \<open>
  Claim C5, for calls that do not overlap. In every state the application reaches from
  its initial state, through any sequence of events in which a handler is called only
  when no earlier call is still suspended at an \<open>await\<close>, at most one source node is
  active. When moreover no call is suspended, a buffer is cached and an audio context
  can be had, a call of \<open>handleReplay\<close> that runs to its end leaves exactly one active
  source node, the new one, which \<open>sourceNodeRef\<close> holds. A second call, before that
  playback has ended, first runs \<open>stopAudio\<close>: when it reaches its \<open>await\<close> no node is
  active, the ref is cleared, and the node of the first call is stopped and
  disconnected; when it has run to its end exactly one node is active again, the new
  one. (The teardown is in \<open>handleReplay\<close> and \<open>handleGenerateAndPlay\<close>, the two callers
  of \<open>playBuffer\<close>, which call \<open>stopAudio\<close> first; \<open>playBuffer\<close> has none.)
\<close>

theorem single_playback_session:
  assumes "s = run evs (initial_state newContext stopThrows defaultText defaultVoice)"
    and "no_overlap evs (initial_state newContext stopThrows defaultText defaultVoice)"
  shows "length (active_nodes s) \<le> 1 \<and>
    (pending s = [] \<and> lastAudioBufferRef s = Some b \<and> context_available s \<longrightarrow>
       (let s1 = run [Replay, Resume 0, Resume 0] s;
            called = handleReplay s1;
            s2 = run [Resume 0, Resume 0] called
        in active_nodes s1 = [length (nodes s)] \<and>
           sourceNodeRef s1 = Some (length (nodes s)) \<and>
           active_nodes called = [] \<and>
           sourceNodeRef called = None \<and>
           stopped (nodes called ! length (nodes s)) \<and>
           \<not> connected (nodes called ! length (nodes s)) \<and>
           active_nodes s2 = [length (nodes s) + 1] \<and>
           sourceNodeRef s2 = Some (length (nodes s) + 1) \<and>
           stopped (nodes s2 ! length (nodes s)) \<and>
           \<not> connected (nodes s2 ! length (nodes s)) \<and>
           isPlaying s2))"
proof -
  have "serial_inv s"
    unfolding assms(1) using initial_serial assms(2) by (rule run_serial)
  then have inv: "session_inv s"
    by (rule serial_inv_session)
  then have "length (active_nodes s) \<le> 1"
    by (rule at_most_one_active)
  moreover have "(let s1 = run [Replay, Resume 0, Resume 0] s;
            called = handleReplay s1;
            s2 = run [Resume 0, Resume 0] called
        in active_nodes s1 = [length (nodes s)] \<and>
           sourceNodeRef s1 = Some (length (nodes s)) \<and>
           active_nodes called = [] \<and>
           sourceNodeRef called = None \<and>
           stopped (nodes called ! length (nodes s)) \<and>
           \<not> connected (nodes called ! length (nodes s)) \<and>
           active_nodes s2 = [length (nodes s) + 1] \<and>
           sourceNodeRef s2 = Some (length (nodes s) + 1) \<and>
           stopped (nodes s2 ! length (nodes s)) \<and>
           \<not> connected (nodes s2 ! length (nodes s)) \<and>
           isPlaying s2)"
    if "pending s = []" "lastAudioBufferRef s = Some b" "context_available s"
    unfolding Let_def using replay_twice [OF inv that] by (intro conjI)
  ultimately show ?thesis by blast
qed

theorem single_playback_session_witness:
  "no_overlap generate_to_end (example_start False) \<and>
   pending (run generate_to_end (example_start False)) = [] \<and>
   lastAudioBufferRef (run generate_to_end (example_start False)) = Some example_buffer \<and>
   context_available (run generate_to_end (example_start False)) \<and>
   length (active_nodes (run generate_to_end (example_start False))) \<le> 1 \<and>
   active_nodes (run [Replay, Resume 0, Resume 0] (run generate_to_end (example_start False))) = [1] \<and>
   active_nodes (handleReplay
     (run [Replay, Resume 0, Resume 0] (run generate_to_end (example_start False)))) = [] \<and>
   active_nodes (run [Resume 0, Resume 0] (handleReplay
     (run [Replay, Resume 0, Resume 0] (run generate_to_end (example_start False))))) = [2] \<and>
   stopped (nodes (run [Resume 0, Resume 0] (handleReplay
     (run [Replay, Resume 0, Resume 0] (run generate_to_end (example_start False))))) ! 1)"
proof -
  let ?s = "run generate_to_end (example_start False)"
  have hyp: "pending ?s = [] \<and> lastAudioBufferRef ?s = Some example_buffer \<and> context_available ?s"
    unfolding example_generated by (simp add: context_available_def)
  have len: "length (nodes ?s) = 1"
    unfolding example_generated by simp
  have serial: "no_overlap generate_to_end (example_start False)"
    by (rule example_no_overlap)
  have "?s = run generate_to_end (initial_state (Inr minimal_context) False [0x3042] ())"
    and "no_overlap generate_to_end (initial_state (Inr minimal_context) False [0x3042] ())"
    using serial by (simp_all only: example_start_def)
  from single_playback_session [OF this, of example_buffer] hyp serial
  show ?thesis
    unfolding Let_def len by simp
qed

text \<open>
  Claim C5 as stated fails when two calls overlap. After one generation has been played,
  \<open>handleReplay\<close> is called twice in succession, the second call before the first has
  been resumed from its \<open>await\<close>: both calls run \<open>stopAudio\<close> before either has created
  its node, then each creates and starts one. Two source nodes are active, and the
  node of the first call is neither stopped nor disconnected, nor held by the ref.
\<close>

theorem single_playback_session_counterexample:
  "active_nodes (run [Replay, Replay, Resume 0, Resume 0]
     (run generate_to_end (example_start False))) = [1, 2] \<and>
   sourceNodeRef (run [Replay, Replay, Resume 0, Resume 0]
     (run generate_to_end (example_start False))) = Some 2 \<and>
   \<not> stopped (nodes (run [Replay, Replay, Resume 0, Resume 0]
     (run generate_to_end (example_start False))) ! 1) \<and>
   connected (nodes (run [Replay, Replay, Resume 0, Resume 0]
     (run generate_to_end (example_start False))) ! 1)"
  unfolding example_overlap
  by (simp add: active_nodes_def active_def new_source_def numeral_3_eq_3)

text \<open>
  Claim C8. \<open>stopAudio\<close> always returns, with \<open>isPlaying\<close> false and the ref cleared.
  It changes nothing before any play call (on the initial state) and nothing more when
  playback has already been stopped (it is idempotent); with no source node it only
  sets \<open>isPlaying\<close> to false. When \<open>stop()\<close> throws, as on a source that has already
  finished on platforms that do so, the error is swallowed: the node is still
  disconnected, the ref cleared and \<open>isPlaying\<close> set to false.
\<close>

theorem stopAudio_safe:
  "isPlaying (stopAudio s) = False \<and> sourceNodeRef (stopAudio s) = None \<and>
   stopAudio (stopAudio s) = stopAudio s \<and>
   stopAudio (initial_state newContext stopThrows defaultText defaultVoice)
     = initial_state newContext stopThrows defaultText defaultVoice \<and>
   (sourceNodeRef s = None \<longrightarrow> stopAudio s = s\<lparr>isPlaying := False\<rparr>) \<and>
   (sourceNodeRef s = Some k \<and>
    source_stop (stopThrowsWhenFinished s) (nodes s ! k) = Inl InvalidStateError \<longrightarrow>
      stopAudio s = s\<lparr>nodes := (nodes s)[k := source_disconnect (nodes s ! k)],
                       sourceNodeRef := None, isPlaying := False\<rparr>)"
  using stopAudio_fields(1,2) [of s] stopAudio_idem [of s]
    stopAudio_initial [of newContext stopThrows defaultText defaultVoice]
    stopAudio_idle [of s] stopAudio_throwing [of s k InvalidStateError]
  by blast

theorem stopAudio_safe_witness:
  "sourceNodeRef (example_start True) = None \<and>
   stopAudio (example_start True) = (example_start True)\<lparr>isPlaying := False\<rparr> \<and>
   sourceNodeRef (run (generate_to_end @ [Ended 0]) (example_start True)) = Some 0 \<and>
   source_stop (stopThrowsWhenFinished (run (generate_to_end @ [Ended 0]) (example_start True)))
     (nodes (run (generate_to_end @ [Ended 0]) (example_start True)) ! 0)
     = Inl InvalidStateError \<and>
   isPlaying (stopAudio (run (generate_to_end @ [Ended 0]) (example_start True))) = False \<and>
   nodes (stopAudio (run (generate_to_end @ [Ended 0]) (example_start True)))
     = [(new_source example_buffer)\<lparr>ended := True, connected := False\<rparr>]"
proof -
  let ?i = "example_start True"
  let ?e = "run (generate_to_end @ [Ended 0]) (example_start True)"
  have idle: "sourceNodeRef ?i = None"
    by (simp add: example_start_def initial_state_def)
  have ref: "sourceNodeRef ?e = Some 0"
    unfolding example_ended by simp
  have throws: "source_stop (stopThrowsWhenFinished ?e) (nodes ?e ! 0) = Inl InvalidStateError"
    unfolding example_ended by (simp add: source_stop_def new_source_def)
  from stopAudio_safe [of ?i "Inr minimal_context" True "[0x3042]" "()" 0] idle
  have a: "stopAudio ?i = ?i\<lparr>isPlaying := False\<rparr>"
    by blast
  from stopAudio_safe [of ?e "Inr minimal_context" True "[0x3042]" "()" 0] ref throws
  have "isPlaying (stopAudio ?e) = False"
    and "stopAudio ?e = ?e\<lparr>nodes := (nodes ?e)[0 := source_disconnect (nodes ?e ! 0)],
                           sourceNodeRef := None, isPlaying := False\<rparr>"
    by blast+
  then have "isPlaying (stopAudio ?e) = False"
    and "nodes (stopAudio ?e) = (nodes ?e)[0 := source_disconnect (nodes ?e ! 0)]"
    by simp_all
  then have b: "isPlaying (stopAudio ?e) = False"
    "nodes (stopAudio ?e) = [(new_source example_buffer)\<lparr>ended := True, connected := False\<rparr>]"
    unfolding example_ended by (simp_all add: source_disconnect_def)
  from idle a ref throws b show ?thesis by blast
qed

text \<open>
  Claim C10. When no \<open>AudioBuffer\<close> is cached, \<open>handleReplay\<close> and \<open>handleDownload\<close>
  return at once and leave the whole state as it is: no playback is started, no
  download is triggered, no error is set, and \<open>isPlaying\<close>, \<open>hasAudio\<close> and the error
  message are unchanged.
\<close>

theorem no_cached_buffer_no_effect:
  assumes "lastAudioBufferRef s = None"
  shows "handleReplay s = s \<and> handleDownload isoString s = s"
  using assms by (simp add: handleReplay_def handleDownload_def)

theorem no_cached_buffer_no_effect_witness:
  "lastAudioBufferRef (example_start False) = None \<and>
   handleReplay (example_start False) = example_start False \<and>
   handleDownload ''2026-01-02T03:04:05.678Z'' (example_start False) = example_start False"
proof -
  have "lastAudioBufferRef (example_start False) = None"
    by (simp add: example_start_def initial_state_def)
  with no_cached_buffer_no_effect [of "example_start False" "''2026-01-02T03:04:05.678Z''"]
  show ?thesis by blast
qed

end
